theory Spec2Isabelle
  imports Main "HOL-Library.Sublist" "HOL-Library.Word"
begin

section \<open>The feedback formatter of \<^verbatim>\<open>src/App.tsx\<close>\<close>

text \<open>
  The component renders the model's answer through a chain of seven
  \<^verbatim>\<open>String.prototype.replace\<close> calls (lines 234--256 of \<^verbatim>\<open>src/App.tsx\<close>):
  \<^verbatim>\<open>
  feedback
    .replace(/\*\*(.*?)\*\*/g, '<strong>$1</strong>')
    .replace(/^- (.*)/gm, '<li>$1</li>')
    .replace(/^\d+\. (.*)/gm, '<li>$1</li>')
    .replace(/(<\/strong>)\n<li>/g, '$1<ul><li>')
    .replace(/(<\/li>)\n<strong>/g, '</li></ul><strong>')
    .replace(/(<\/li>)\n\n<li>/g, '</li></ul><strong>')
    .replace(/<li>.*?<\/li>/g, (match, offset, original) => { ... })
  \<close>
  Each call is embedded as one function that scans the string from left to right the way
  a global regular-expression replace does: at every position the pattern is tried; on a
  match the replacement is emitted and the scan resumes after the match, otherwise the
  character is copied and the scan moves one position on.
\<close>

subsection \<open>Strings\<close>

text \<open>
  A JavaScript string is a sequence of UTF-16 code units, and none of the seven regular
  expressions carries the \<^verbatim>\<open>u\<close> flag, so every pattern works on code units.
\<close>

type_synonym code_unit = "16 word"
type_synonym jsstring = "code_unit list"

definition js :: "string \<Rightarrow> jsstring" where
  "js s = map of_char s"

text \<open>
  \<^verbatim>\<open>.\<close> matches every code unit but the four line terminators of ECMAScript (LF, CR,
  U+2028, U+2029); with the \<^verbatim>\<open>m\<close> flag \<^verbatim>\<open>^\<close> matches at the start of the input and
  after each of them. \<^verbatim>\<open>\d\<close> is \<^verbatim>\<open>[0-9]\<close>.
\<close>

definition is_line_terminator :: "code_unit \<Rightarrow> bool" where
  "is_line_terminator c \<longleftrightarrow> c = 0x0A \<or> c = 0x0D \<or> c = 0x2028 \<or> c = 0x2029"

definition is_digit :: "code_unit \<Rightarrow> bool" where
  "is_digit c \<longleftrightarrow> 0x30 \<le> c \<and> c \<le> 0x39"

definition dot :: "code_unit \<Rightarrow> bool" where
  "dot c \<longleftrightarrow> \<not> is_line_terminator c"

definition STARS :: jsstring where "STARS = js ''**''"
definition DASH_SP :: jsstring where "DASH_SP = js ''- ''"
definition DOT_SP :: jsstring where "DOT_SP = js ''. ''"
definition STRONG_OPEN :: jsstring where "STRONG_OPEN = js ''<strong>''"
definition STRONG_CLOSE :: jsstring where "STRONG_CLOSE = js ''</strong>''"
definition LI_OPEN :: jsstring where "LI_OPEN = js ''<li>''"
definition LI_CLOSE :: jsstring where "LI_CLOSE = js ''</li>''"
definition UL_OPEN :: jsstring where "UL_OPEN = js ''<ul>''"
definition UL_CLOSE :: jsstring where "UL_CLOSE = js ''</ul>''"
definition OL_OPEN :: jsstring where "OL_OPEN = js ''<ol>''"
definition OL_CLOSE :: jsstring where "OL_CLOSE = js ''</ol>''"
definition NL :: jsstring where "NL = [0x0A]"

subsection \<open>Pattern pieces\<close>

text \<open>
  \<^verbatim>\<open>.*?\<close> followed by a literal closer: the lazy quantifier tries the closer first and
  consumes one more non-terminator only when the closer does not match here. The result is
  the text consumed by \<^verbatim>\<open>.*?\<close> and the rest of the input after the closer; \<open>None\<close> when
  a line terminator or the end of the input comes before any closer.
\<close>

fun lazy_dots :: "jsstring \<Rightarrow> jsstring \<Rightarrow> (jsstring \<times> jsstring) option" where
  "lazy_dots closer [] = (if closer = [] then Some ([], []) else None)"
| "lazy_dots closer (c # cs) =
     (if prefix closer (c # cs) then Some ([], drop (length closer) (c # cs))
      else if dot c then
        (case lazy_dots closer cs of
           Some (m, r) \<Rightarrow> Some (c # m, r)
         | None \<Rightarrow> None)
      else None)"

text \<open>
  \<^verbatim>\<open>^\d+\. \<close> at a position where \<^verbatim>\<open>^\<close> holds: the greedy \<^verbatim>\<open>\d+\<close> takes the whole run of
  digits; giving digits back never helps, because the unit after a shorter run is a digit
  and not the period. The result is the input after the period and the space.
\<close>

definition numbered_prefix :: "jsstring \<Rightarrow> jsstring option" where
  "numbered_prefix s =
     (if takeWhile is_digit s \<noteq> [] \<and> prefix DOT_SP (dropWhile is_digit s)
      then Some (drop (length DOT_SP) (dropWhile is_digit s))
      else None)"

subsection \<open>The seven passes\<close>

text \<open>Pass 1, \<^verbatim>\<open>.replace(/\*\*(.*?)\*\*/g, '<strong>$1</strong>')\<close>.\<close>

function bold_pass :: "jsstring \<Rightarrow> jsstring" where
  "bold_pass [] = []"
| "bold_pass (c # cs) =
     (if prefix STARS (c # cs) then
        (case lazy_dots STARS (drop (length STARS) (c # cs)) of
           Some (m, r) \<Rightarrow> STRONG_OPEN @ m @ STRONG_CLOSE @ bold_pass r
         | None \<Rightarrow> c # bold_pass cs)
      else c # bold_pass cs)"
  by pat_completeness auto
termination
proof (relation "measure length")
  have lazy_dots_length: "lazy_dots closer s = Some (m, r) \<Longrightarrow> length r \<le> length s"
    for closer s m r
    by (induction s arbitrary: m r) (auto split: if_splits option.splits)
  fix c :: code_unit and cs x2 x y
  assume "prefix STARS (c # cs)"
    and "lazy_dots STARS (drop (length STARS) (c # cs)) = Some x2"
    and "(x, y) = x2"
  then have "lazy_dots STARS (drop (length STARS) (c # cs)) = Some (x, y)"
    by simp
  from lazy_dots_length [OF this]
  have "length y \<le> length (c # cs) - length STARS"
    by simp
  then show "(y, c # cs) \<in> measure length"
    by (simp add: STARS_def js_def)
qed simp_all

text \<open>
  Pass 2, \<^verbatim>\<open>.replace(/^- (.*)/gm, '<li>$1</li>')\<close>. The flag \<open>bol\<close> says whether \<^verbatim>\<open>^\<close>
  holds at the current position. The greedy \<^verbatim>\<open>.*\<close> runs to the next line terminator
  or to the end; the scan resumes there, where \<^verbatim>\<open>^\<close> does not hold (the unit before is
  the space or a unit of the captured text).
\<close>

function bullet_pass :: "bool \<Rightarrow> jsstring \<Rightarrow> jsstring" where
  "bullet_pass bol [] = []"
| "bullet_pass bol (c # cs) =
     (if bol \<and> prefix DASH_SP (c # cs) then
        LI_OPEN @ takeWhile dot (drop (length DASH_SP) (c # cs)) @ LI_CLOSE
          @ bullet_pass False (dropWhile dot (drop (length DASH_SP) (c # cs)))
      else c # bullet_pass (is_line_terminator c) cs)"
  by pat_completeness auto
termination
proof (relation "measure (\<lambda>(bol, s). length s)")
  fix bol :: bool and c :: code_unit and cs
  assume "bol \<and> prefix DASH_SP (c # cs)"
  have "length (dropWhile dot (drop (length DASH_SP) (c # cs))) \<le> length (drop (length DASH_SP) (c # cs))"
    by (rule length_dropWhile_le)
  then show "((False, dropWhile dot (drop (length DASH_SP) (c # cs))), bol, c # cs)
      \<in> measure (\<lambda>(bol, s). length s)"
    by (simp add: DASH_SP_def js_def)
qed simp_all

text \<open>Pass 3, \<^verbatim>\<open>.replace(/^\d+\. (.*)/gm, '<li>$1</li>')\<close>.\<close>

function numbered_pass :: "bool \<Rightarrow> jsstring \<Rightarrow> jsstring" where
  "numbered_pass bol [] = []"
| "numbered_pass bol (c # cs) =
     (case (if bol then numbered_prefix (c # cs) else None) of
        Some r \<Rightarrow> LI_OPEN @ takeWhile dot r @ LI_CLOSE @ numbered_pass False (dropWhile dot r)
      | None \<Rightarrow> c # numbered_pass (is_line_terminator c) cs)"
  by pat_completeness auto
termination
proof (relation "measure (\<lambda>(bol, s). length s)")
  fix bol :: bool and c :: code_unit and cs r
  assume "(if bol then numbered_prefix (c # cs) else None) = Some r"
  then have r: "r = drop (length DOT_SP) (dropWhile is_digit (c # cs))"
    by (auto simp: numbered_prefix_def split: if_splits)
  have "length (dropWhile is_digit (c # cs)) \<le> length (c # cs)"
    by (rule length_dropWhile_le)
  with r have "length r < length (c # cs)"
    by (simp add: DOT_SP_def js_def)
  moreover have "length (dropWhile dot r) \<le> length r"
    by (rule length_dropWhile_le)
  ultimately show "((False, dropWhile dot r), bol, c # cs) \<in> measure (\<lambda>(bol, s). length s)"
    by simp
qed simp_all

text \<open>
  Passes 4 to 6 have patterns without any operator: each replaces the occurrences of a
  fixed text, found from left to right without overlap. In pass 4 the group \<^verbatim>\<open>$1\<close> is
  always the text \<^verbatim>\<open></strong>\<close>. A pattern is never empty, so a match consumes the unit
  \<open>c\<close> and \<open>length pat - 1\<close> more.
\<close>

fun replace_text :: "jsstring \<Rightarrow> jsstring \<Rightarrow> jsstring \<Rightarrow> jsstring" where
  "replace_text pat rep [] = []"
| "replace_text pat rep (c # cs) =
     (if prefix pat (c # cs) then rep @ replace_text pat rep (drop (length pat - 1) cs)
      else c # replace_text pat rep cs)"

definition start_ul_pass :: "jsstring \<Rightarrow> jsstring" where
  "start_ul_pass = replace_text (STRONG_CLOSE @ NL @ LI_OPEN) (STRONG_CLOSE @ UL_OPEN @ LI_OPEN)"

definition end_ul_pass :: "jsstring \<Rightarrow> jsstring" where
  "end_ul_pass = replace_text (LI_CLOSE @ NL @ STRONG_OPEN) (LI_CLOSE @ UL_CLOSE @ STRONG_OPEN)"

definition blank_line_pass :: "jsstring \<Rightarrow> jsstring" where
  "blank_line_pass = replace_text (LI_CLOSE @ NL @ NL @ LI_OPEN) (LI_CLOSE @ UL_CLOSE @ STRONG_OPEN)"

text \<open>
  Pass 7, \<^verbatim>\<open>.replace(/<li>.*?<\/li>/g, (match, offset, original) => ...)\<close>.
  \<^verbatim>\<open>lastIndexOf\<close> gives the index of the last occurrence, or \<open>-1\<close>.
\<close>

fun lastIndexOf_from :: "jsstring \<Rightarrow> nat \<Rightarrow> jsstring \<Rightarrow> int" where
  "lastIndexOf_from pat i [] = (if pat = [] then int i else - 1)"
| "lastIndexOf_from pat i (c # cs) =
     (let later = lastIndexOf_from pat (Suc i) cs
      in if 0 \<le> later then later
         else if prefix pat (c # cs) then int i
         else - 1)"

definition lastIndexOf :: "jsstring \<Rightarrow> jsstring \<Rightarrow> int" where
  "lastIndexOf s pat = lastIndexOf_from pat 0 s"

definition wrap_callback :: "jsstring \<Rightarrow> nat \<Rightarrow> jsstring \<Rightarrow> jsstring" where
  "wrap_callback match offset original =
     (let parentUl = lastIndexOf (take offset original) UL_OPEN;
          parentOl = lastIndexOf (take offset original) OL_OPEN;
          lastListEnd = max (lastIndexOf (take offset original) UL_CLOSE)
                            (lastIndexOf (take offset original) OL_CLOSE)
      in if parentUl > lastListEnd \<or> parentOl > lastListEnd then match
         else if prefix DASH_SP match then UL_OPEN @ match @ UL_CLOSE
         else if numbered_prefix match \<noteq> None then OL_OPEN @ match @ OL_CLOSE
         else match)"

function wrap_scan :: "jsstring \<Rightarrow> nat \<Rightarrow> jsstring \<Rightarrow> jsstring" where
  "wrap_scan original offset [] = []"
| "wrap_scan original offset (c # cs) =
     (if prefix LI_OPEN (c # cs) then
        (case lazy_dots LI_CLOSE (drop (length LI_OPEN) (c # cs)) of
           Some (m, r) \<Rightarrow>
             wrap_callback (LI_OPEN @ m @ LI_CLOSE) offset original
               @ wrap_scan original (offset + length (LI_OPEN @ m @ LI_CLOSE)) r
         | None \<Rightarrow> c # wrap_scan original (Suc offset) cs)
      else c # wrap_scan original (Suc offset) cs)"
  by pat_completeness auto
termination
proof (relation "measure (\<lambda>(original, offset, s). length s)")
  have lazy_dots_length: "lazy_dots closer s = Some (m, r) \<Longrightarrow> length r \<le> length s"
    for closer s m r
    by (induction s arbitrary: m r) (auto split: if_splits option.splits)
  fix original :: jsstring and offset :: nat and c :: code_unit and cs x2 x y
  assume "prefix LI_OPEN (c # cs)"
    and "lazy_dots LI_CLOSE (drop (length LI_OPEN) (c # cs)) = Some x2"
    and "(x, y) = x2"
  then have "lazy_dots LI_CLOSE (drop (length LI_OPEN) (c # cs)) = Some (x, y)"
    by simp
  from lazy_dots_length [OF this]
  have "length y \<le> length (c # cs) - length LI_OPEN"
    by simp
  then show "((original, offset + length (LI_OPEN @ x @ LI_CLOSE), y), original, offset, c # cs)
      \<in> measure (\<lambda>(original, offset, s). length s)"
    by (simp add: LI_OPEN_def js_def)
qed simp_all

definition wrap_pass :: "jsstring \<Rightarrow> jsstring" where
  "wrap_pass s = wrap_scan s 0 s"

subsection \<open>The chain\<close>

definition item_passes :: "jsstring \<Rightarrow> jsstring" where
  "item_passes s = numbered_pass True (bullet_pass True (bold_pass s))"

definition container_passes :: "jsstring \<Rightarrow> jsstring" where
  "container_passes s = blank_line_pass (end_ul_pass (start_ul_pass s))"

definition format :: "jsstring \<Rightarrow> jsstring" where
  "format s = wrap_pass (container_passes (item_passes s))"

subsection \<open>Reading an output\<close>

text \<open>
  The claims speak about the elements of the HTML that \<open>format\<close> returns. The item
  elements of a text are read from left to right: an element runs from \<^verbatim>\<open><li>\<close> to the
  next \<^verbatim>\<open></li>\<close>, and \<open>items_of\<close> lists what stands between the two tags.
\<close>

fun text_until :: "jsstring \<Rightarrow> jsstring \<Rightarrow> (jsstring \<times> jsstring) option" where
  "text_until closer [] = (if closer = [] then Some ([], []) else None)"
| "text_until closer (c # cs) =
     (if prefix closer (c # cs) then Some ([], drop (length closer) (c # cs))
      else (case text_until closer cs of
              Some (m, r) \<Rightarrow> Some (c # m, r)
            | None \<Rightarrow> None))"

function items_of :: "jsstring \<Rightarrow> jsstring list" where
  "items_of [] = []"
| "items_of (c # cs) =
     (if prefix LI_OPEN (c # cs) then
        (case text_until LI_CLOSE (drop (length LI_OPEN) (c # cs)) of
           Some (m, r) \<Rightarrow> m # items_of r
         | None \<Rightarrow> items_of cs)
      else items_of cs)"
  by pat_completeness auto
termination
proof (relation "measure length")
  have text_until_length: "text_until closer s = Some (m, r) \<Longrightarrow> length r \<le> length s"
    for closer s m r
    by (induction s arbitrary: m r) (auto split: if_splits option.splits)
  fix c :: code_unit and cs x2 x y
  assume "prefix LI_OPEN (c # cs)"
    and "text_until LI_CLOSE (drop (length LI_OPEN) (c # cs)) = Some x2"
    and "(x, y) = x2"
  then have "text_until LI_CLOSE (drop (length LI_OPEN) (c # cs)) = Some (x, y)"
    by simp
  from text_until_length [OF this]
  have "length y \<le> length (c # cs) - length LI_OPEN"
    by simp
  then show "(y, c # cs) \<in> measure length"
    by (simp add: LI_OPEN_def js_def)
qed simp_all




text \<open>
  The lines of an input, as the patterns see them: a line ends at each line terminator.
  \<open>join_lines\<close> puts a line feed between the lines of a list.
\<close>

fun js_lines :: "jsstring \<Rightarrow> jsstring list" where
  "js_lines [] = [[]]"
| "js_lines (c # cs) =
     (if is_line_terminator c then [] # js_lines cs
      else (case js_lines cs of
              l # ls \<Rightarrow> (c # l) # ls
            | [] \<Rightarrow> [[c]]))"

fun join_lines :: "jsstring list \<Rightarrow> jsstring" where
  "join_lines [] = []"
| "join_lines [l] = l"
| "join_lines (l # ls) = l @ NL @ join_lines ls"

text \<open>
  A text without markers: no \<^verbatim>\<open>**\<close> anywhere and no line that starts with \<^verbatim>\<open>- \<close> or
  with digits, a period and a space.
\<close>

definition marker_free :: "jsstring \<Rightarrow> bool" where
  "marker_free s \<longleftrightarrow>
     \<not> sublist STARS s
     \<and> list_all (\<lambda>l. \<not> prefix DASH_SP l \<and> numbered_prefix l = None) (js_lines s)"

text \<open>
  A plain line: no line terminator, no bold marker, no item marker at its start, and no
  \<^verbatim>\<open><\<close> at its start.
\<close>

definition plain_line :: "jsstring \<Rightarrow> bool" where
  "plain_line p \<longleftrightarrow>
     list_all dot p \<and> \<not> sublist STARS p \<and> \<not> prefix DASH_SP p \<and> numbered_prefix p = None
     \<and> \<not> prefix (js ''<'') p"

text \<open>
  Item lines and item elements. The text of an item has no line terminator, no star and
  no \<^verbatim>\<open><\<close>; a bullet line is \<^verbatim>\<open>- \<close> and the text, a numbered line is digits, \<^verbatim>\<open>. \<close> and
  the text, and the item element of a text is the text between the two item tags.
\<close>

definition item_text :: "jsstring \<Rightarrow> bool" where
  "item_text c \<longleftrightarrow> list_all (\<lambda>u. dot u \<and> u \<noteq> 0x2A \<and> u \<noteq> 0x3C) c"

definition bullet_line :: "jsstring \<Rightarrow> jsstring" where
  "bullet_line c = DASH_SP @ c"

definition numbered_line :: "jsstring \<times> jsstring \<Rightarrow> jsstring" where
  "numbered_line nc = fst nc @ DOT_SP @ snd nc"

definition item_element :: "jsstring \<Rightarrow> jsstring" where
  "item_element c = LI_OPEN @ c @ LI_CLOSE"








text \<open>
  Line boundaries. After the first three passes the text is a list of converted lines with
  line feeds between them. Pass 4 rewrites a line feed where the line before ends with
  \<^verbatim>\<open></strong>\<close> and the line after starts with \<^verbatim>\<open><li>\<close>; pass 5 rewrites one where the line
  before ends with \<^verbatim>\<open></li>\<close> and the line after starts with \<^verbatim>\<open><strong>\<close>. \<open>glue b\<close> joins
  lines with the text \<open>b\<close> chooses for each boundary.
\<close>

definition opens_list :: "jsstring \<Rightarrow> jsstring \<Rightarrow> bool" where
  "opens_list q e \<longleftrightarrow> suffix STRONG_CLOSE q \<and> prefix LI_OPEN e"

definition closes_list :: "jsstring \<Rightarrow> jsstring \<Rightarrow> bool" where
  "closes_list q e \<longleftrightarrow> suffix LI_CLOSE q \<and> prefix STRONG_OPEN e"

definition boundary4 :: "jsstring \<Rightarrow> jsstring \<Rightarrow> jsstring" where
  "boundary4 q e = (if opens_list q e then UL_OPEN else NL)"

definition boundary :: "jsstring \<Rightarrow> jsstring \<Rightarrow> jsstring" where
  "boundary q e = (if opens_list q e then UL_OPEN else if closes_list q e then UL_CLOSE else NL)"

fun glue :: "(jsstring \<Rightarrow> jsstring \<Rightarrow> jsstring) \<Rightarrow> jsstring list \<Rightarrow> jsstring" where
  "glue b [] = []"
| "glue b [e] = e"
| "glue b (e # e' # r) = e @ b e e' @ glue b (e' # r)"

text \<open>
  Emitting line by line with a lookback of two lines. \<open>emit_lines frag fin\<close> works through
  the lines in order; for each line it emits the fragment that \<open>frag\<close> chooses from the
  line and the two lines before it, and after the last line the text that \<open>fin\<close> chooses
  from the last two lines.

  \<open>converted_fragment\<close> is the fragment of the container passes for a line that the first
  three passes have already converted. A blank line after a line that ends with \<^verbatim>\<open></li>\<close>
  emits nothing at first: the next line decides whether pass 6 matches (it starts with
  \<^verbatim>\<open><li>\<close>; then \<^verbatim>\<open></ul><strong>\<close> stands for the two line feeds and the item tag) or
  not (then the two line feeds are emitted). Everywhere else a line emits the text that
  passes 4 and 5 leave at the boundary before it, and itself.
\<close>

fun emit_lines ::
  "(jsstring option \<Rightarrow> jsstring option \<Rightarrow> jsstring \<Rightarrow> jsstring)
    \<Rightarrow> (jsstring option \<Rightarrow> jsstring option \<Rightarrow> jsstring)
    \<Rightarrow> jsstring option \<Rightarrow> jsstring option \<Rightarrow> jsstring list \<Rightarrow> jsstring" where
  "emit_lines frag fin p2 p1 [] = fin p2 p1"
| "emit_lines frag fin p2 p1 (l # ls) = frag p2 p1 l @ emit_lines frag fin p1 (Some l) ls"

fun pending :: "jsstring option \<Rightarrow> bool" where
  "pending None = False"
| "pending (Some r) = suffix LI_CLOSE r"

fun converted_fragment :: "jsstring option \<Rightarrow> jsstring option \<Rightarrow> jsstring \<Rightarrow> jsstring" where
  "converted_fragment p2 None e = e"
| "converted_fragment p2 (Some q) e =
     (if e = [] \<and> suffix LI_CLOSE q then []
      else if q = [] \<and> pending p2 then
        (if prefix LI_OPEN e then UL_CLOSE @ STRONG_OPEN @ drop (length LI_OPEN) e
         else NL @ NL @ e)
      else boundary q e @ e)"

fun converted_end :: "jsstring option \<Rightarrow> jsstring option \<Rightarrow> jsstring" where
  "converted_end p2 None = []"
| "converted_end p2 (Some q) = (if q = [] \<and> pending p2 then NL else [])"

text \<open>
  The fragment of a line of the input: the line and the two lines before it are converted
  by the first three passes, each on its own, and the container passes choose the fragment.
\<close>

definition line_fragment :: "jsstring option \<Rightarrow> jsstring option \<Rightarrow> jsstring \<Rightarrow> jsstring" where
  "line_fragment p2 p1 l =
     converted_fragment (map_option item_passes p2) (map_option item_passes p1) (item_passes l)"

definition end_fragment :: "jsstring option \<Rightarrow> jsstring option \<Rightarrow> jsstring" where
  "end_fragment p2 p1 = converted_end (map_option item_passes p2) (map_option item_passes p1)"

text \<open>
  A formatter emits by lookback when it can be written with \<open>emit_lines\<close>: with fragments
  chosen from the line and the two lines before it, or from the line and the one line
  before it. The text after the last line may depend on the last two lines in both cases.
\<close>

definition two_line_lookback :: "(jsstring \<Rightarrow> jsstring) \<Rightarrow> bool" where
  "two_line_lookback f \<longleftrightarrow>
     (\<exists>frag fin. \<forall>ls. ls \<noteq> [] \<and> list_all (\<lambda>l. 0x0A \<notin> set l) ls \<longrightarrow>
        f (join_lines ls) = emit_lines frag fin None None ls)"

definition one_line_lookback :: "(jsstring \<Rightarrow> jsstring) \<Rightarrow> bool" where
  "one_line_lookback f \<longleftrightarrow>
     (\<exists>frag fin. \<forall>ls. ls \<noteq> [] \<and> list_all (\<lambda>l. 0x0A \<notin> set l) ls \<longrightarrow>
        f (join_lines ls) = emit_lines (\<lambda>p2. frag) fin None None ls)"

text \<open>
  A property of a pattern: every line feed in it is followed by another line feed or by
  \<^verbatim>\<open><\<close>. The patterns of passes 4 to 6 have it.
\<close>

fun feeds_followed :: "jsstring \<Rightarrow> bool" where
  "feeds_followed [] = True"
| "feeds_followed [c] = (c \<noteq> 0x0A)"
| "feeds_followed (c # d # cs) = ((c = 0x0A \<longrightarrow> d = 0x0A \<or> d = 0x3C) \<and> feeds_followed (d # cs))"

section \<open>Basic facts about the passes\<close>

lemmas text_defs = STARS_def DASH_SP_def DOT_SP_def STRONG_OPEN_def STRONG_CLOSE_def
  LI_OPEN_def LI_CLOSE_def UL_OPEN_def UL_CLOSE_def OL_OPEN_def OL_CLOSE_def NL_def js_def

lemma lazy_dots_split:
  "lazy_dots closer s = Some (m, r) \<Longrightarrow> s = m @ closer @ r"
proof (induction s arbitrary: m)
  case Nil
  then show ?case by (simp split: if_splits)
next
  case (Cons c cs)
  show ?case
  proof (cases "prefix closer (c # cs)")
    case True
    with Cons.prems have "m = []" and "r = drop (length closer) (c # cs)"
      by simp_all
    moreover from True have "c # cs = closer @ drop (length closer) (c # cs)"
      by (metis append_eq_conv_conj prefixE)
    ultimately show ?thesis by simp
  next
    case False
    with Cons.prems obtain m' where "lazy_dots closer cs = Some (m', r)" and "m = c # m'"
      by (auto split: if_splits option.splits)
    with Cons.IH show ?thesis by simp
  qed
qed

subsection \<open>The last pass\<close>

text \<open>
  The callback of pass 7 is only ever called on a match of \<^verbatim>\<open><li>.*?</li>\<close>, a text that
  starts with \<^verbatim>\<open><li>\<close>. Its two tests \<^verbatim>\<open>match.match(/^- /)\<close> and
  \<^verbatim>\<open>match.match(/^\d+\. /)\<close> look at the start of that text, so both fail and every branch
  returns the match.
\<close>

lemma wrap_callback_item:
  "wrap_callback (LI_OPEN @ t) offset original = LI_OPEN @ t"
  by (simp add: wrap_callback_def Let_def numbered_prefix_def is_digit_def text_defs)

lemma wrap_scan_id: "wrap_scan original offset s = s"
proof (induction original offset s rule: wrap_scan.induct)
  case (1 original offset)
  show ?case by simp
next
  case (2 original offset c cs)
  show ?case
  proof (cases "prefix LI_OPEN (c # cs)")
    case False
    with "2.IH"(3) [OF False] show ?thesis by simp
  next
    case True
    show ?thesis
    proof (cases "lazy_dots LI_CLOSE (drop (length LI_OPEN) (c # cs))")
      case None
      with "2.IH"(1) [OF True None] True show ?thesis by simp
    next
      case (Some mr)
      obtain m r where mr: "mr = (m, r)" by (cases mr)
      from Some mr have split: "drop (length LI_OPEN) (c # cs) = m @ LI_CLOSE @ r"
        by (simp add: lazy_dots_split)
      from True have "c # cs = LI_OPEN @ drop (length LI_OPEN) (c # cs)"
        by (metis append_eq_conv_conj prefixE)
      with split have whole: "c # cs = LI_OPEN @ m @ LI_CLOSE @ r" by simp
      from "2.IH"(2) [OF True Some mr [symmetric]]
      have "wrap_scan original (offset + length (LI_OPEN @ m @ LI_CLOSE)) r = r" .
      then have "wrap_scan original offset (c # cs)
          = wrap_callback (LI_OPEN @ m @ LI_CLOSE) offset original @ r"
        using True Some mr by simp
      also have "\<dots> = (LI_OPEN @ m @ LI_CLOSE) @ r"
        using wrap_callback_item [of "m @ LI_CLOSE" offset original] by simp
      finally show ?thesis
        using whole by simp
    qed
  qed
qed

lemma format_chain: "format s = container_passes (item_passes s)"
  by (simp add: format_def wrap_pass_def wrap_scan_id)

subsection \<open>Texts that a pass leaves alone\<close>

lemma replace_text_id:
  "\<not> sublist pat s \<Longrightarrow> replace_text pat rep s = s"
  by (induction s) (auto simp: sublist_Cons_right)

lemma replace_text_no_NL:
  assumes "0x0A \<in> set pat" and "0x0A \<notin> set s"
  shows "replace_text pat rep s = s"
proof -
  have "\<not> sublist pat s"
    using assms set_mono_sublist by blast
  then show ?thesis by (rule replace_text_id)
qed


lemma dot_not_NL: "\<forall>u\<in>set s. dot u \<Longrightarrow> 0x0A \<notin> set s"
  by (auto simp: dot_def is_line_terminator_def)

lemma bullet_pass_mid_line:
  "\<forall>u\<in>set s. dot u \<Longrightarrow> bullet_pass False s = s"
  by (induction s) (simp_all add: dot_def)

lemma bullet_pass_single_line:
  "\<forall>u\<in>set s. dot u \<Longrightarrow> \<not> prefix DASH_SP s \<Longrightarrow> bullet_pass True s = s"
  by (cases s) (simp_all add: bullet_pass_mid_line dot_def)

lemma numbered_pass_mid_line:
  "\<forall>u\<in>set s. dot u \<Longrightarrow> numbered_pass False s = s"
  by (induction s) (simp_all add: dot_def)

lemma numbered_pass_single_line:
  "\<forall>u\<in>set s. dot u \<Longrightarrow> numbered_prefix s = None \<Longrightarrow> numbered_pass True s = s"
  by (cases s) (simp_all add: numbered_pass_mid_line dot_def)

subsection \<open>Bold spans\<close>

lemma lazy_dots_dots:
  "lazy_dots closer s = Some (m, r) \<Longrightarrow> \<forall>u\<in>set m. dot u"
  by (induction s arbitrary: m) (auto split: if_splits option.splits)



lemma bold_pass_id: "\<not> sublist STARS s \<Longrightarrow> bold_pass s = s"
  by (induction s) (auto simp: sublist_Cons_right)




lemma bold_pass_plain_prefix:
  "0x2A \<notin> set pre \<Longrightarrow> bold_pass (pre @ s) = pre @ bold_pass s"
  by (induction pre) (simp_all add: text_defs)


subsection \<open>The first three passes work line by line\<close>

lemma prefix_before_NL:
  assumes "(0x0A::code_unit) \<notin> set p"
  shows "prefix p (x @ 0x0A # b) \<longleftrightarrow> prefix p x"
proof
  assume a: "prefix p (x @ 0x0A # b)"
  show "prefix p x"
  proof (rule ccontr)
    assume n: "\<not> prefix p x"
    with a obtain us where us: "p = x @ us" "prefix us (0x0A # b)"
      by (auto simp: prefix_append)
    with n have "us \<noteq> []" by auto
    with us(2) obtain us' where "us = 0x0A # us'"
      by (cases us) auto
    with us(1) assms show False by simp
  qed
next
  assume "prefix p x"
  then show "prefix p (x @ 0x0A # b)"
    by (rule prefix_prefix)
qed

lemma drop_prefix_append:
  "prefix p x \<Longrightarrow> drop (length p) (x @ y) = drop (length p) x @ y"
  by (simp add: prefix_length_le)

lemma lazy_dots_NL:
  assumes "0x0A \<notin> set closer" and "closer \<noteq> []"
  shows "lazy_dots closer (x @ 0x0A # b)
    = (case lazy_dots closer x of Some (m, r) \<Rightarrow> Some (m, r @ 0x0A # b) | None \<Rightarrow> None)"
proof (induction x)
  case Nil
  have "\<not> prefix closer (0x0A # b)"
    using assms by (cases closer) auto
  then show ?case
    using assms(2) by (simp add: dot_def is_line_terminator_def)
next
  case (Cons c cs)
  have p: "prefix closer ((c # cs) @ 0x0A # b) \<longleftrightarrow> prefix closer (c # cs)"
    using assms(1) by (rule prefix_before_NL)
  show ?case
  proof (cases "prefix closer (c # cs)")
    case True
    then have "drop (length closer) ((c # cs) @ 0x0A # b) = drop (length closer) (c # cs) @ 0x0A # b"
      by (rule drop_prefix_append)
    with True p show ?thesis by simp
  next
    case False
    with p Cons.IH show ?thesis
      by (simp split: option.splits)
  qed
qed

lemma bold_pass_NL:
  "bold_pass (a @ 0x0A # b) = bold_pass a @ 0x0A # bold_pass b"
proof (induction a rule: bold_pass.induct)
  case 1
  show ?case by (simp add: text_defs)
next
  case (2 c cs)
  have stars: "0x0A \<notin> set STARS" "STARS \<noteq> []"
    by (simp_all add: text_defs)
  have p: "prefix STARS ((c # cs) @ 0x0A # b) \<longleftrightarrow> prefix STARS (c # cs)"
    using stars(1) by (rule prefix_before_NL)
  show ?case
  proof (cases "prefix STARS (c # cs)")
    case False
    with p "2.IH"(3) show ?thesis by simp
  next
    case True
    then have d: "drop (length STARS) ((c # cs) @ 0x0A # b) = drop (length STARS) (c # cs) @ 0x0A # b"
      by (rule drop_prefix_append)
    have l: "lazy_dots STARS (drop (length STARS) (c # cs) @ 0x0A # b)
      = (case lazy_dots STARS (drop (length STARS) (c # cs)) of
           Some (m, r) \<Rightarrow> Some (m, r @ 0x0A # b) | None \<Rightarrow> None)"
      using stars by (rule lazy_dots_NL)
    show ?thesis
    proof (cases "lazy_dots STARS (drop (length STARS) (c # cs))")
      case None
      with True p d l "2.IH"(1) [OF True None] show ?thesis
        by simp
    next
      case (Some mr)
      obtain m r where mr: "mr = (m, r)" by (cases mr)
      from "2.IH"(2) [OF True Some mr [symmetric]]
      have "bold_pass (r @ 0x0A # b) = bold_pass r @ 0x0A # bold_pass b" .
      with True p d l Some mr show ?thesis
        by simp
    qed
  qed
qed

lemma takeWhile_dot_NL: "takeWhile dot (x @ 0x0A # b) = takeWhile dot x"
  by (induction x) (simp_all add: dot_def is_line_terminator_def)

lemma dropWhile_dot_NL: "dropWhile dot (x @ 0x0A # b) = dropWhile dot x @ 0x0A # b"
  by (induction x) (simp_all add: dot_def is_line_terminator_def)

lemma bullet_pass_NL:
  "bullet_pass bol (a @ 0x0A # b) = bullet_pass bol a @ 0x0A # bullet_pass True b"
proof (induction bol a rule: bullet_pass.induct)
  case (1 bol)
  show ?case by (simp add: text_defs is_line_terminator_def)
next
  case (2 bol c cs)
  have "0x0A \<notin> set DASH_SP"
    by (simp add: text_defs)
  then have p: "prefix DASH_SP ((c # cs) @ 0x0A # b) \<longleftrightarrow> prefix DASH_SP (c # cs)"
    by (rule prefix_before_NL)
  show ?case
  proof (cases "bol \<and> prefix DASH_SP (c # cs)")
    case False
    then have "bullet_pass bol ((c # cs) @ 0x0A # b)
        = c # bullet_pass (is_line_terminator c) (cs @ 0x0A # b)"
      using p by auto
    also have "\<dots> = c # bullet_pass (is_line_terminator c) cs @ 0x0A # bullet_pass True b"
      using "2.IH"(2) [OF False] by simp
    also have "\<dots> = bullet_pass bol (c # cs) @ 0x0A # bullet_pass True b"
      using False by auto
    finally show ?thesis .
  next
    case True
    then have d: "drop (length DASH_SP) (c # cs @ 0x0A # b) = drop (length DASH_SP) (c # cs) @ 0x0A # b"
      using drop_prefix_append [of DASH_SP "c # cs" "0x0A # b"] by simp
    from "2.IH"(1) [OF True]
    have "bullet_pass False (dropWhile dot (drop (length DASH_SP) (c # cs)) @ 0x0A # b)
      = bullet_pass False (dropWhile dot (drop (length DASH_SP) (c # cs))) @ 0x0A # bullet_pass True b" .
    with True p d show ?thesis
      by (simp add: takeWhile_dot_NL dropWhile_dot_NL)
  qed
qed

lemma numbered_prefix_NL:
  "numbered_prefix (x @ 0x0A # b) = map_option (\<lambda>r. r @ 0x0A # b) (numbered_prefix x)"
proof -
  have nd: "\<not> is_digit 0x0A"
    by (simp add: is_digit_def)
  have t: "takeWhile is_digit (x @ 0x0A # b) = takeWhile is_digit x"
    and d: "dropWhile is_digit (x @ 0x0A # b) = dropWhile is_digit x @ 0x0A # b"
    using nd by (induction x) simp_all
  have "0x0A \<notin> set DOT_SP"
    by (simp add: text_defs)
  then have p: "prefix DOT_SP (dropWhile is_digit x @ 0x0A # b) \<longleftrightarrow> prefix DOT_SP (dropWhile is_digit x)"
    by (rule prefix_before_NL)
  show ?thesis
  proof (cases "prefix DOT_SP (dropWhile is_digit x)")
    case True
    then have "drop (length DOT_SP) (dropWhile is_digit x @ 0x0A # b)
        = drop (length DOT_SP) (dropWhile is_digit x) @ 0x0A # b"
      by (rule drop_prefix_append)
    with True show ?thesis
      by (simp add: numbered_prefix_def t d p)
  next
    case False
    then show ?thesis
      by (simp add: numbered_prefix_def t d p)
  qed
qed

lemma numbered_pass_NL:
  "numbered_pass bol (a @ 0x0A # b) = numbered_pass bol a @ 0x0A # numbered_pass True b"
proof (induction bol a rule: numbered_pass.induct)
  case (1 bol)
  have "numbered_prefix (0x0A # b) = None"
    by (simp add: numbered_prefix_def is_digit_def)
  then show ?case by (simp add: is_line_terminator_def)
next
  case (2 bol c cs)
  let ?np = "if bol then numbered_prefix (c # cs) else None"
  have np: "(if bol then numbered_prefix (c # cs @ 0x0A # b) else None)
    = map_option (\<lambda>r. r @ 0x0A # b) ?np"
    using numbered_prefix_NL [of "c # cs" b] by simp
  show ?case
  proof (cases ?np)
    case None
    with np have "numbered_pass bol ((c # cs) @ 0x0A # b)
        = c # numbered_pass (is_line_terminator c) (cs @ 0x0A # b)"
      by simp
    also have "\<dots> = c # numbered_pass (is_line_terminator c) cs @ 0x0A # numbered_pass True b"
      using "2.IH"(1) [OF None] by simp
    also have "\<dots> = numbered_pass bol (c # cs) @ 0x0A # numbered_pass True b"
      using None by simp
    finally show ?thesis .
  next
    case (Some r)
    from "2.IH"(2) [OF Some]
    have ih: "numbered_pass False (dropWhile dot r @ 0x0A # b)
      = numbered_pass False (dropWhile dot r) @ 0x0A # numbered_pass True b" .
    from np Some have "numbered_pass bol ((c # cs) @ 0x0A # b)
        = LI_OPEN @ takeWhile dot (r @ 0x0A # b) @ LI_CLOSE
            @ numbered_pass False (dropWhile dot (r @ 0x0A # b))"
      by simp
    also have "\<dots> = (LI_OPEN @ takeWhile dot r @ LI_CLOSE @ numbered_pass False (dropWhile dot r))
        @ 0x0A # numbered_pass True b"
      using ih by (simp add: takeWhile_dot_NL dropWhile_dot_NL)
    also have "\<dots> = numbered_pass bol (c # cs) @ 0x0A # numbered_pass True b"
      using Some by simp
    finally show ?thesis .
  qed
qed

lemma item_passes_NL:
  "item_passes (a @ NL @ b) = item_passes a @ NL @ item_passes b"
  by (simp add: item_passes_def NL_def bold_pass_NL bullet_pass_NL numbered_pass_NL)

lemma item_passes_join_lines:
  "item_passes (join_lines ls) = join_lines (map item_passes ls)"
proof (induction ls rule: join_lines.induct)
  case 1
  show ?case by (simp add: item_passes_def)
next
  case (2 l)
  show ?case by simp
next
  case (3 l v va)
  then show ?case by (simp add: item_passes_NL)
qed

subsection \<open>The container passes work at line boundaries\<close>

text \<open>
  The patterns of passes 4 to 6 have the shape \<open>A @ 0x0A # B\<close> with no line feed in
  \<open>A\<close>. On a text whose first line is \<open>l\<close> such a pattern can only match where \<open>A\<close>
  ends the line and \<open>B\<close> starts what follows the line feed.
\<close>

lemma prefix_aligned:
  assumes "(0x0A::code_unit) \<notin> set A" and "0x0A \<notin> set l"
  shows "prefix (A @ 0x0A # B) (l @ 0x0A # rest) \<longleftrightarrow> A = l \<and> prefix B rest"
  using assms
proof (induction A arbitrary: l)
  case Nil
  then show ?case by (cases l) auto
next
  case (Cons a A)
  then show ?case by (cases l) auto
qed

lemma replace_text_one_line:
  assumes "(0x0A::code_unit) \<notin> set A" and "0x0A \<notin> set l"
  shows "replace_text (A @ 0x0A # B) rep l = l"
proof -
  have "\<not> sublist (A @ 0x0A # B) l"
    using assms(2) set_mono_sublist by fastforce
  then show ?thesis by (rule replace_text_id)
qed

lemma replace_text_first_line:
  assumes "(0x0A::code_unit) \<notin> set A" and "0x0A \<notin> set l"
  shows "replace_text (A @ 0x0A # B) rep (l @ 0x0A # rest) =
    (if suffix A l \<and> prefix B rest
     then take (length l - length A) l @ rep @ replace_text (A @ 0x0A # B) rep (drop (length B) rest)
     else l @ 0x0A # replace_text (A @ 0x0A # B) rep rest)"
  using assms(2)
proof (induction l)
  case Nil
  have "prefix (A @ 0x0A # B) (0x0A # rest) \<longleftrightarrow> A = [] \<and> prefix B rest"
    using prefix_aligned [OF assms(1), of "[]" B rest] by simp
  then show ?case by auto
next
  case (Cons c l)
  have al: "prefix (A @ 0x0A # B) (c # l @ 0x0A # rest) \<longleftrightarrow> A = c # l \<and> prefix B rest"
    using prefix_aligned [OF assms(1), of "c # l" B rest] Cons.prems by simp
  from Cons have ih: "replace_text (A @ 0x0A # B) rep (l @ 0x0A # rest) =
    (if suffix A l \<and> prefix B rest
     then take (length l - length A) l @ rep @ replace_text (A @ 0x0A # B) rep (drop (length B) rest)
     else l @ 0x0A # replace_text (A @ 0x0A # B) rep rest)"
    by simp
  show ?case
  proof (cases "A = c # l \<and> prefix B rest")
    case True
    then have "drop (length (A @ 0x0A # B) - 1) (l @ 0x0A # rest) = drop (length B) rest"
      by simp
    with True al show ?thesis by simp
  next
    case False
    with al have "\<not> prefix (A @ 0x0A # B) (c # l @ 0x0A # rest)"
      by blast
    then have step: "replace_text (A @ 0x0A # B) rep ((c # l) @ 0x0A # rest)
        = c # replace_text (A @ 0x0A # B) rep (l @ 0x0A # rest)"
      by simp
    show ?thesis
    proof (cases "suffix A l \<and> prefix B rest")
      case True
      then have "length A \<le> length l"
        by (simp add: suffix_length_le)
      then have t: "take (length (c # l) - length A) (c # l) = c # take (length l - length A) l"
        by (simp add: Suc_diff_le)
      from True have s: "suffix A (c # l) \<and> prefix B rest"
        by (simp add: suffix_Cons)
      note step
      also have "c # replace_text (A @ 0x0A # B) rep (l @ 0x0A # rest)
          = c # take (length l - length A) l @ rep
              @ replace_text (A @ 0x0A # B) rep (drop (length B) rest)"
        using ih True by simp
      also have "\<dots> = take (length (c # l) - length A) (c # l) @ rep
              @ replace_text (A @ 0x0A # B) rep (drop (length B) rest)"
        using t by simp
      finally have "replace_text (A @ 0x0A # B) rep ((c # l) @ 0x0A # rest)
          = take (length (c # l) - length A) (c # l) @ rep
              @ replace_text (A @ 0x0A # B) rep (drop (length B) rest)" .
      then show ?thesis
        unfolding if_P [OF s] .
    next
      case nosuf: False
      with False have ns: "\<not> (suffix A (c # l) \<and> prefix B rest)"
        by (auto simp: suffix_Cons)
      note step
      also have "c # replace_text (A @ 0x0A # B) rep (l @ 0x0A # rest)
          = (c # l) @ 0x0A # replace_text (A @ 0x0A # B) rep rest"
        using ih nosuf by simp
      finally have "replace_text (A @ 0x0A # B) rep ((c # l) @ 0x0A # rest)
          = (c # l) @ 0x0A # replace_text (A @ 0x0A # B) rep rest" .
      then show ?thesis
        unfolding if_not_P [OF ns] .
    qed
  qed
qed

text \<open>
  A line that is appended after a line feed stays as it is, and so does everything before
  it, when the line does not start with \<^verbatim>\<open><\<close> or a line feed: in each of the three
  patterns the unit after a line feed is one of these two.
\<close>

lemma feeds_followed_tail: "feeds_followed (c # cs) \<Longrightarrow> feeds_followed cs"
  by (cases cs) simp_all

lemma prefix_before_plain:
  assumes "feeds_followed pat" and "p = [] \<or> (hd p \<noteq> 0x0A \<and> hd p \<noteq> 0x3C)"
  shows "prefix pat (x @ 0x0A # p) \<Longrightarrow> prefix pat x"
  using assms(1)
proof (induction x arbitrary: pat)
  case Nil
  show ?case
  proof (cases pat)
    case Nil
    then show ?thesis by simp
  next
    case (Cons a pat')
    with Nil.prems have a: "a = 0x0A" and p': "prefix pat' p" and f: "feeds_followed (0x0A # pat')"
      by simp_all
    show ?thesis
    proof (cases pat')
      case Nil
      with f show ?thesis by simp
    next
      case (Cons d pat'')
      with f have "d = 0x0A \<or> d = 0x3C" by simp
      moreover from Cons p' have "p \<noteq> []" and "hd p = d"
        by (cases p; simp)+
      ultimately show ?thesis using assms(2) by auto
    qed
  qed
next
  case (Cons c x)
  show ?case
  proof (cases pat)
    case Nil
    then show ?thesis by simp
  next
    case (Cons a pat')
    with Cons.prems have "a = c" and "prefix pat' (x @ 0x0A # p)" and "feeds_followed pat'"
      by (simp_all add: feeds_followed_tail)
    with Cons.IH Cons show ?thesis by simp
  qed
qed

lemma replace_text_append:
  assumes "\<And>x. prefix pat (x @ y) \<Longrightarrow> prefix pat x" and "replace_text pat rep y = y"
  shows "replace_text pat rep (t @ y) = replace_text pat rep t @ y"
  using assms
proof (induction pat rep t rule: replace_text.induct)
  case (1 pat rep)
  then show ?case by simp
next
  case (2 pat rep c cs)
  have p: "prefix pat (c # cs @ y) \<longleftrightarrow> prefix pat (c # cs)"
    using "2.prems"(1) [of "c # cs"] prefix_prefix [of pat "c # cs" y] by auto
  show ?case
  proof (cases "prefix pat (c # cs)")
    case True
    then have "length pat - 1 \<le> length cs"
      using prefix_length_le by fastforce
    then have d: "drop (length pat - 1) (cs @ y) = drop (length pat - 1) cs @ y"
      by simp
    from "2.IH"(1) [OF True "2.prems"]
    have "replace_text pat rep (drop (length pat - 1) cs @ y)
      = replace_text pat rep (drop (length pat - 1) cs) @ y" .
    with True p d show ?thesis by simp
  next
    case False
    from "2.IH"(2) [OF False "2.prems"]
    have "replace_text pat rep (cs @ y) = replace_text pat rep cs @ y" .
    with False p show ?thesis by simp
  qed
qed

lemma replace_text_append_plain:
  assumes "feeds_followed pat" and "0x0A \<in> set pat" and "0x0A \<notin> set p"
    and "p = [] \<or> hd p \<noteq> 0x3C"
  shows "replace_text pat rep (t @ 0x0A # p) = replace_text pat rep t @ 0x0A # p"
proof (rule replace_text_append)
  have h: "p = [] \<or> (hd p \<noteq> 0x0A \<and> hd p \<noteq> 0x3C)"
    using assms(3,4) by (cases p) auto
  show "prefix pat x" if "prefix pat (x @ 0x0A # p)" for x
    using assms(1) h that by (rule prefix_before_plain)
  have "\<not> prefix pat (0x0A # p)"
    using prefix_before_plain [OF assms(1) h, of "[]"] assms(2) by auto
  moreover have "replace_text pat rep p = p"
    using assms(2,3) by (rule replace_text_no_NL)
  ultimately show "replace_text pat rep (0x0A # p) = 0x0A # p"
    by simp
qed

lemma container_passes_append_plain:
  assumes "0x0A \<notin> set p" and "p = [] \<or> hd p \<noteq> 0x3C"
  shows "container_passes (t @ NL @ p) = container_passes t @ NL @ p"
proof -
  have "feeds_followed (STRONG_CLOSE @ NL @ LI_OPEN)" "0x0A \<in> set (STRONG_CLOSE @ NL @ LI_OPEN)"
    and "feeds_followed (LI_CLOSE @ NL @ STRONG_OPEN)" "0x0A \<in> set (LI_CLOSE @ NL @ STRONG_OPEN)"
    and "feeds_followed (LI_CLOSE @ NL @ NL @ LI_OPEN)" "0x0A \<in> set (LI_CLOSE @ NL @ NL @ LI_OPEN)"
    by (simp_all add: text_defs)
  with assms show ?thesis
    by (simp add: container_passes_def start_ul_pass_def end_ul_pass_def blank_line_pass_def
        replace_text_append_plain NL_def)
qed

subsection \<open>Lines without a marker at their start\<close>

lemma js_lines_not_Nil: "js_lines s \<noteq> []"
  by (induction s) (auto split: list.splits)

lemma js_lines_Cons:
  "js_lines (c # cs) =
     (if is_line_terminator c then [] # js_lines cs
      else (c # hd (js_lines cs)) # tl (js_lines cs))"
  using js_lines_not_Nil [of cs] by (cases "js_lines cs") simp_all

lemma prefix_first_line:
  "\<forall>u\<in>set p. dot u \<Longrightarrow> prefix p s \<Longrightarrow> prefix p (hd (js_lines s))"
proof (induction p arbitrary: s)
  case Nil
  show ?case by simp
next
  case (Cons a p)
  then obtain s' where s: "s = a # s'" and "prefix p s'"
    by (cases s) auto
  with Cons have "prefix p (hd (js_lines s'))" and "\<not> is_line_terminator a"
    by (simp_all add: dot_def)
  with s show ?case
    by (simp add: js_lines_Cons del: js_lines.simps)
qed

lemma numbered_prefix_iff:
  "numbered_prefix s \<noteq> None \<longleftrightarrow>
     (\<exists>ds. ds \<noteq> [] \<and> (\<forall>d\<in>set ds. is_digit d) \<and> prefix (ds @ DOT_SP) s)"
proof
  assume "numbered_prefix s \<noteq> None"
  then have ne: "takeWhile is_digit s \<noteq> []" and p: "prefix DOT_SP (dropWhile is_digit s)"
    by (auto simp: numbered_prefix_def split: if_splits)
  have "prefix (takeWhile is_digit s @ DOT_SP) (takeWhile is_digit s @ dropWhile is_digit s)"
    using p by (simp only: same_prefix_prefix)
  then have "prefix (takeWhile is_digit s @ DOT_SP) s"
    by (simp only: takeWhile_dropWhile_id)
  moreover have "\<forall>d\<in>set (takeWhile is_digit s). is_digit d"
    by (auto dest: set_takeWhileD)
  ultimately show "\<exists>ds. ds \<noteq> [] \<and> (\<forall>d\<in>set ds. is_digit d) \<and> prefix (ds @ DOT_SP) s"
    using ne by blast
next
  assume "\<exists>ds. ds \<noteq> [] \<and> (\<forall>d\<in>set ds. is_digit d) \<and> prefix (ds @ DOT_SP) s"
  then obtain ds r where ds: "ds \<noteq> []" "\<forall>d\<in>set ds. is_digit d" and s: "s = ds @ DOT_SP @ r"
    by (auto simp: prefix_def)
  have nd: "\<not> is_digit 0x2E"
    by (simp add: is_digit_def)
  have "takeWhile is_digit s = ds" and "dropWhile is_digit s = DOT_SP @ r"
    using ds(2) nd by (simp_all add: s text_defs)
  with ds(1) show "numbered_prefix s \<noteq> None"
    by (simp add: numbered_prefix_def)
qed

lemma numbered_first_line:
  assumes "numbered_prefix s \<noteq> None"
  shows "numbered_prefix (hd (js_lines s)) \<noteq> None"
proof -
  from assms obtain ds where ds: "ds \<noteq> []" "\<forall>d\<in>set ds. is_digit d" "prefix (ds @ DOT_SP) s"
    unfolding numbered_prefix_iff by blast
  have "\<forall>u\<in>set (ds @ DOT_SP). dot u"
    using ds(2) by (auto simp: is_digit_def dot_def is_line_terminator_def text_defs)
  then have "prefix (ds @ DOT_SP) (hd (js_lines s))"
    using ds(3) by (rule prefix_first_line)
  with ds(1,2) show ?thesis
    unfolding numbered_prefix_iff by blast
qed

lemma bullet_pass_no_bullet_line:
  "list_all (\<lambda>l. \<not> prefix DASH_SP l) (if bol then js_lines s else tl (js_lines s))
   \<Longrightarrow> bullet_pass bol s = s"
proof (induction s arbitrary: bol)
  case Nil
  show ?case by simp
next
  case (Cons c cs)
  have d: "\<forall>u\<in>set DASH_SP. dot u"
    by (simp add: text_defs dot_def is_line_terminator_def)
  have no: "\<not> (bol \<and> prefix DASH_SP (c # cs))"
  proof
    assume a: "bol \<and> prefix DASH_SP (c # cs)"
    then have "prefix DASH_SP (hd (js_lines (c # cs)))"
      using d prefix_first_line by blast
    moreover from a Cons.prems have "\<not> prefix DASH_SP (hd (js_lines (c # cs)))"
      by (simp add: js_lines_Cons del: js_lines.simps split: if_splits)
    ultimately show False by simp
  qed
  have "list_all (\<lambda>l. \<not> prefix DASH_SP l)
      (if is_line_terminator c then js_lines cs else tl (js_lines cs))"
    using Cons.prems by (cases bol) (simp_all add: js_lines_Cons del: js_lines.simps split: if_splits)
  then have "bullet_pass (is_line_terminator c) cs = cs"
    by (rule Cons.IH)
  with no show ?case by auto
qed

lemma numbered_pass_no_numbered_line:
  "list_all (\<lambda>l. numbered_prefix l = None) (if bol then js_lines s else tl (js_lines s))
   \<Longrightarrow> numbered_pass bol s = s"
proof (induction s arbitrary: bol)
  case Nil
  show ?case by simp
next
  case (Cons c cs)
  have no: "(if bol then numbered_prefix (c # cs) else None) = None"
  proof (cases bol)
    case True
    with Cons.prems have "numbered_prefix (hd (js_lines (c # cs))) = None"
      by (simp add: js_lines_Cons del: js_lines.simps split: if_splits)
    then have "numbered_prefix (c # cs) = None"
      using numbered_first_line [of "c # cs"] by blast
    with True show ?thesis by simp
  next
    case False
    then show ?thesis by simp
  qed
  have "list_all (\<lambda>l. numbered_prefix l = None)
      (if is_line_terminator c then js_lines cs else tl (js_lines cs))"
    using Cons.prems by (cases bol) (simp_all add: js_lines_Cons del: js_lines.simps split: if_splits)
  then have "numbered_pass (is_line_terminator c) cs = cs"
    by (rule Cons.IH)
  with no show ?case by simp
qed

lemma item_passes_marker_free: "marker_free s \<Longrightarrow> item_passes s = s"
proof -
  assume m: "marker_free s"
  then have "list_all (\<lambda>l. \<not> prefix DASH_SP l) (js_lines s)"
    and "list_all (\<lambda>l. numbered_prefix l = None) (js_lines s)"
    by (simp_all add: marker_free_def list_all_iff)
  then have "bullet_pass True s = s" and "numbered_pass True s = s"
    by (simp_all add: bullet_pass_no_bullet_line numbered_pass_no_numbered_line)
  moreover from m have "bold_pass s = s"
    by (simp add: marker_free_def bold_pass_id)
  ultimately show ?thesis
    by (simp add: item_passes_def)
qed

subsection \<open>A plain line after a line feed\<close>

lemma item_passes_plain_line: "plain_line p \<Longrightarrow> item_passes p = p"
  by (simp add: plain_line_def item_passes_def bold_pass_id bullet_pass_single_line
      numbered_pass_single_line list_all_iff)

subsection \<open>Item lines\<close>

lemma item_text_facts:
  assumes "item_text c"
  shows "\<forall>u\<in>set c. dot u" and "0x2A \<notin> set c" and "0x3C \<notin> set c" and "0x0A \<notin> set c"
  using assms by (auto simp: item_text_def list_all_iff dot_def is_line_terminator_def)

lemma bold_pass_no_star: "0x2A \<notin> set s \<Longrightarrow> bold_pass s = s"
  using bold_pass_plain_prefix [of s "[]"] by simp

lemma takeWhile_all: "\<forall>u\<in>set c. P u \<Longrightarrow> takeWhile P c = c"
  by (induction c) simp_all

lemma dropWhile_all: "\<forall>u\<in>set c. P u \<Longrightarrow> dropWhile P c = []"
  by (induction c) simp_all

lemma item_element_dots: "\<forall>u\<in>set c. dot u \<Longrightarrow> \<forall>u\<in>set (item_element c). dot u"
  by (auto simp: item_element_def text_defs dot_def is_line_terminator_def)

lemma item_element_not_numbered: "numbered_prefix (item_element c) = None"
  by (simp add: item_element_def numbered_prefix_def is_digit_def text_defs)

lemma item_passes_bullet_line:
  assumes "item_text c"
  shows "item_passes (bullet_line c) = item_element c"
proof -
  note f = item_text_facts [OF assms]
  have "0x2A \<notin> set (bullet_line c)"
    using f(2) by (simp add: bullet_line_def text_defs)
  then have b: "bold_pass (bullet_line c) = bullet_line c"
    by (rule bold_pass_no_star)
  have "bullet_line c = 0x2D # 0x20 # c" and "prefix DASH_SP (0x2D # 0x20 # c)"
    and "drop (length DASH_SP) (0x2D # 0x20 # c) = c"
    by (simp_all add: bullet_line_def text_defs)
  then have u: "bullet_pass True (bullet_line c) = item_element c"
    using f(1) by (simp add: takeWhile_all dropWhile_all item_element_def)
  have "numbered_pass True (item_element c) = item_element c"
    using f(1) by (simp add: numbered_pass_single_line item_element_dots item_element_not_numbered)
  with b u show ?thesis
    by (simp add: item_passes_def)
qed

lemma item_passes_numbered_line:
  assumes "item_text c" and "n \<noteq> []" and "list_all is_digit n"
  shows "item_passes (numbered_line (n, c)) = item_element c"
proof -
  note f = item_text_facts [OF assms(1)]
  let ?l = "n @ DOT_SP @ c"
  have nd: "\<forall>u\<in>set n. is_digit u"
    using assms(3) by (simp add: list_all_iff)
  then have star: "0x2A \<notin> set n" and dots: "\<forall>u\<in>set n. dot u"
    by (auto simp: is_digit_def dot_def is_line_terminator_def)
  have "0x2A \<notin> set ?l"
    using f(2) star by (simp add: text_defs)
  then have b: "bold_pass ?l = ?l"
    by (rule bold_pass_no_star)
  have "\<forall>u\<in>set ?l. dot u"
    using f(1) dots by (auto simp: text_defs dot_def is_line_terminator_def)
  moreover have "\<not> prefix DASH_SP ?l"
    using assms(2) nd by (cases n) (auto simp: text_defs is_digit_def)
  ultimately have u: "bullet_pass True ?l = ?l"
    by (rule bullet_pass_single_line)
  have "\<not> is_digit 0x2E"
    by (simp add: is_digit_def)
  then have "takeWhile is_digit ?l = n" and "dropWhile is_digit ?l = DOT_SP @ c"
    using nd by (simp_all add: text_defs)
  then have np: "numbered_prefix ?l = Some c"
    using assms(2) by (simp add: numbered_prefix_def)
  obtain x xs where l: "?l = x # xs"
    using assms(2) by (cases n) auto
  from np l have "numbered_prefix (x # xs) = Some c"
    by simp
  then have "numbered_pass True (x # xs) = item_element c"
    using f(1) by (simp add: takeWhile_all dropWhile_all item_element_def)
  with l have "numbered_pass True ?l = item_element c"
    by simp
  with b u show ?thesis
    by (simp add: item_passes_def numbered_line_def)
qed


lemma join_lines_Cons:
  "join_lines (l # ls) = l @ (if ls = [] then [] else NL @ join_lines ls)"
  by (cases ls) simp_all

lemma replace_text_skip_line:
  assumes "(0x0A::code_unit) \<notin> set A" and "0x0A \<notin> set l"
    and "\<not> (suffix A l \<and> prefix B rest)"
  shows "replace_text (A @ 0x0A # B) rep (l @ 0x0A # rest)
    = l @ 0x0A # replace_text (A @ 0x0A # B) rep rest"
  unfolding replace_text_first_line [OF assms(1,2)] if_not_P [OF assms(3)] ..

lemma replace_text_match_line:
  assumes "(0x0A::code_unit) \<notin> set A" and "0x0A \<notin> set x"
  shows "replace_text (A @ 0x0A # B) rep ((x @ A) @ 0x0A # B @ r)
    = x @ rep @ replace_text (A @ 0x0A # B) rep r"
proof -
  have "0x0A \<notin> set (x @ A)"
    using assms by simp
  moreover have "suffix A (x @ A) \<and> prefix B (B @ r)"
    by (simp add: suffix_def)
  ultimately show ?thesis
    unfolding replace_text_first_line [OF assms(1) \<open>0x0A \<notin> set (x @ A)\<close>]
    by simp
qed

lemma replace_text_join_id:
  assumes "(0x0A::code_unit) \<notin> set A" and "\<forall>l\<in>set ls. 0x0A \<notin> set l"
    and "(\<forall>l\<in>set ls. \<not> suffix A l) \<or> (\<forall>l\<in>set ls. \<forall>r. \<not> prefix B (l @ r))"
  shows "replace_text (A @ 0x0A # B) rep (join_lines ls) = join_lines ls"
  using assms(2,3)
proof (induction ls rule: join_lines.induct)
  case 1
  show ?case by simp
next
  case (2 l)
  then show ?case
    using replace_text_one_line [OF assms(1), of l B rep] by simp
next
  case (3 l l' ls)
  have "\<not> (suffix A l \<and> prefix B (join_lines (l' # ls)))"
    using "3.prems"(2) join_lines_Cons [of l' ls] by auto
  moreover have "0x0A \<notin> set l"
    using "3.prems"(1) by simp
  ultimately have "replace_text (A @ 0x0A # B) rep (l @ 0x0A # join_lines (l' # ls))
      = l @ 0x0A # replace_text (A @ 0x0A # B) rep (join_lines (l' # ls))"
    using replace_text_skip_line [OF assms(1)] by blast
  moreover have "replace_text (A @ 0x0A # B) rep (join_lines (l' # ls)) = join_lines (l' # ls)"
    using "3.IH" "3.prems" by auto
  ultimately show ?case
    by (simp add: NL_def)
qed

lemma item_element_ends:
  "\<not> suffix STRONG_CLOSE (item_element c)" "suffix LI_CLOSE (item_element c)"
  by (simp_all add: item_element_def suffix_to_prefix text_defs)

lemma item_element_starts:
  "\<not> prefix STRONG_OPEN (item_element c @ r)" "\<not> prefix (0x0A # LI_OPEN) (item_element c @ r)"
  "prefix LI_OPEN (item_element c @ r)"
  by (simp_all add: item_element_def text_defs)

lemma item_element_no_NL: "0x0A \<notin> set c \<Longrightarrow> 0x0A \<notin> set (item_element c)"
  by (simp add: item_element_def text_defs)

lemma container_passes_item_elements:
  assumes "\<forall>c\<in>set cs. 0x0A \<notin> set c"
  shows "container_passes (join_lines (map item_element cs)) = join_lines (map item_element cs)"
proof -
  let ?ls = "map item_element cs"
  have nl: "\<forall>l\<in>set ?ls. 0x0A \<notin> set l"
    using assms by (simp add: item_element_no_NL)
  have A: "0x0A \<notin> set STRONG_CLOSE" "0x0A \<notin> set LI_CLOSE"
    by (simp_all add: text_defs)
  have "replace_text (STRONG_CLOSE @ 0x0A # LI_OPEN) rep (join_lines ?ls) = join_lines ?ls" for rep
    using A(1) nl by (rule replace_text_join_id) (simp add: item_element_ends)
  moreover
  have "replace_text (LI_CLOSE @ 0x0A # STRONG_OPEN) rep (join_lines ?ls) = join_lines ?ls" for rep
    using A(2) nl by (rule replace_text_join_id) (simp add: item_element_starts(1))
  moreover
  have "replace_text (LI_CLOSE @ 0x0A # 0x0A # LI_OPEN) rep (join_lines ?ls) = join_lines ?ls" for rep
    using A(2) nl by (rule replace_text_join_id) (simp add: item_element_starts(2))
  ultimately show ?thesis
    by (simp add: container_passes_def start_ul_pass_def end_ul_pass_def blank_line_pass_def NL_def)
qed

lemma format_bullet_lines:
  assumes "list_all item_text cs"
  shows "format (join_lines (map bullet_line cs)) = join_lines (map item_element cs)"
proof -
  have "map item_passes (map bullet_line cs) = map item_element cs"
    using assms by (simp add: list_all_iff item_passes_bullet_line)
  then have "item_passes (join_lines (map bullet_line cs)) = join_lines (map item_element cs)"
    by (simp only: item_passes_join_lines)
  moreover have "\<forall>c\<in>set cs. 0x0A \<notin> set c"
    using assms by (simp add: list_all_iff item_text_facts)
  ultimately show ?thesis
    by (simp add: format_chain container_passes_item_elements)
qed

lemma format_numbered_lines:
  assumes "list_all (\<lambda>nc. fst nc \<noteq> [] \<and> list_all is_digit (fst nc) \<and> item_text (snd nc)) ncs"
  shows "format (join_lines (map numbered_line ncs)) = join_lines (map item_element (map snd ncs))"
proof -
  have "map item_passes (map numbered_line ncs) = map item_element (map snd ncs)"
    using assms by (auto simp: list_all_iff item_passes_numbered_line)
  then have "item_passes (join_lines (map numbered_line ncs)) = join_lines (map item_element (map snd ncs))"
    by (simp only: item_passes_join_lines)
  moreover have "\<forall>c\<in>set (map snd ncs). 0x0A \<notin> set c"
    using assms by (auto simp: list_all_iff item_text_facts)
  then have "container_passes (join_lines (map item_element (map snd ncs)))
      = join_lines (map item_element (map snd ncs))"
    by (rule container_passes_item_elements)
  ultimately show ?thesis
    by (simp only: format_chain)
qed

subsection \<open>Reading the items back\<close>

lemma text_until_item:
  "0x3C \<notin> set c \<Longrightarrow> text_until LI_CLOSE (c @ LI_CLOSE @ r) = Some (c, r)"
  by (induction c) (simp_all add: text_defs)

lemma items_of_item_element:
  assumes "0x3C \<notin> set c"
  shows "items_of (item_element c @ r) = c # items_of r"
proof -
  have "item_element c @ r = 0x3C # 0x6C # 0x69 # 0x3E # c @ LI_CLOSE @ r"
    and "prefix LI_OPEN (0x3C # 0x6C # 0x69 # 0x3E # c @ LI_CLOSE @ r)"
    and "drop (length LI_OPEN) (0x3C # 0x6C # 0x69 # 0x3E # c @ LI_CLOSE @ r) = c @ LI_CLOSE @ r"
    by (simp_all add: item_element_def text_defs)
  then show ?thesis
    using text_until_item [OF assms, of r] by simp
qed

lemma items_of_NL: "items_of (NL @ s) = items_of s"
  by (simp add: text_defs)

lemma items_of_item_elements:
  "\<forall>c\<in>set cs. 0x3C \<notin> set c \<Longrightarrow> items_of (join_lines (map item_element cs)) = cs"
proof (induction cs)
  case Nil
  show ?case by simp
next
  case (Cons c cs)
  then have "items_of (join_lines (map item_element cs)) = cs" and c: "0x3C \<notin> set c"
    by simp_all
  then have "items_of (item_element c @ (if cs = [] then [] else NL @ join_lines (map item_element cs)))
      = c # cs"
    using items_of_item_element [OF c] by (simp add: items_of_NL)
  then show ?case
    using join_lines_Cons [of "item_element c" "map item_element cs"] by simp
qed

subsection \<open>Two items with a blank line between them\<close>



subsection \<open>Documents of headings and bullet lines\<close>







lemma join_lines_Cons2: "join_lines (l # l' # ls) = l @ 0x0A # join_lines (l' # ls)"
  by (simp add: NL_def)




lemma start_ul_keeps_item_tag:
  "replace_text (STRONG_CLOSE @ 0x0A # LI_OPEN) rep (LI_OPEN @ z)
     = LI_OPEN @ replace_text (STRONG_CLOSE @ 0x0A # LI_OPEN) rep z"
  by (simp add: text_defs)

lemma end_ul_keeps_strong_tag:
  "replace_text (LI_CLOSE @ 0x0A # STRONG_OPEN) rep (STRONG_OPEN @ z)
     = STRONG_OPEN @ replace_text (LI_CLOSE @ 0x0A # STRONG_OPEN) rep z"
  by (simp add: text_defs)









subsection \<open>The container tags of a document\<close>






subsection \<open>Pass 4 on a list of lines\<close>

lemma glue_Cons: "glue b (e # r) = e @ (case r of [] \<Rightarrow> [] | e' # r' \<Rightarrow> b e e' @ glue b r)"
  by (cases r) simp_all

lemma prefix_short:
  "length p \<le> length e \<Longrightarrow> prefix p (e @ t) \<longleftrightarrow> prefix p e"
  by (metis prefix_length_prefix prefix_prefix prefixI)

lemma suffix_short:
  "length p \<le> length e \<Longrightarrow> suffix p (x @ e) \<longleftrightarrow> suffix p e"
  by (metis suffix_length_suffix suffix_appendI suffixI)

lemma prefix_join_lines:
  assumes "(0x0A::code_unit) \<notin> set p"
  shows "prefix p (join_lines (e # r)) \<longleftrightarrow> prefix p e"
proof (cases r)
  case Nil
  then show ?thesis by simp
next
  case (Cons e' r')
  then have "join_lines (e # r) = e @ 0x0A # join_lines r"
    by (simp add: NL_def)
  then show ?thesis
    using prefix_before_NL [OF assms] by simp
qed

lemma start_ul_lines:
  assumes "list_all (\<lambda>l. 0x0A \<notin> set l) es"
  shows "start_ul_pass (join_lines es) = glue boundary4 es"
  using assms
proof (induction es)
  case Nil
  show ?case by (simp add: start_ul_pass_def)
next
  case (Cons e es)
  let ?pat = "STRONG_CLOSE @ 0x0A # LI_OPEN" and ?rep = "STRONG_CLOSE @ UL_OPEN @ LI_OPEN"
  have A: "0x0A \<notin> set STRONG_CLOSE" and B: "0x0A \<notin> set LI_OPEN"
    by (simp_all add: text_defs)
  have ne: "0x0A \<notin> set e"
    using Cons.prems by simp
  have su: "start_ul_pass = replace_text ?pat ?rep"
    by (simp add: start_ul_pass_def NL_def)
  from Cons have ih: "replace_text ?pat ?rep (join_lines es) = glue boundary4 es"
    by (simp add: su)
  show ?case
  proof (cases es)
    case Nil
    then show ?thesis
      using replace_text_one_line [OF A ne, of LI_OPEN ?rep] by (simp add: su)
  next
    case (Cons e' r)
    have j: "join_lines (e # es) = e @ 0x0A # join_lines es"
      using Cons by (simp add: NL_def)
    have g: "glue boundary4 (e # es) = e @ boundary4 e e' @ glue boundary4 es"
      using Cons by simp
    have pj: "prefix LI_OPEN (join_lines es) \<longleftrightarrow> prefix LI_OPEN e'"
      unfolding Cons using B by (rule prefix_join_lines)
    show ?thesis
    proof (cases "opens_list e e'")
      case True
      then obtain e0 where e0: "e = e0 @ STRONG_CLOSE"
        by (auto simp: opens_list_def suffix_def)
      from True pj obtain z where z: "join_lines es = LI_OPEN @ z"
        by (auto simp: opens_list_def prefix_def)
      have n0: "0x0A \<notin> set e0"
        using ne e0 by simp
      have m: "replace_text ?pat ?rep ((e0 @ STRONG_CLOSE) @ 0x0A # LI_OPEN @ z)
          = e0 @ ?rep @ replace_text ?pat ?rep z"
        using A n0 by (rule replace_text_match_line)
      have "LI_OPEN @ replace_text ?pat ?rep z = glue boundary4 es"
        using ih z by (simp only: start_ul_keeps_item_tag)
      with m have r: "replace_text ?pat ?rep (e @ 0x0A # join_lines es)
          = e @ UL_OPEN @ glue boundary4 es"
        using e0 z by simp
      show ?thesis
        unfolding su j g using True r by (simp add: boundary4_def)
    next
      case False
      then have "\<not> (suffix STRONG_CLOSE e \<and> prefix LI_OPEN (join_lines es))"
        using pj by (simp add: opens_list_def)
      with A ne have "replace_text ?pat ?rep (e @ 0x0A # join_lines es)
          = e @ 0x0A # replace_text ?pat ?rep (join_lines es)"
        by (rule replace_text_skip_line)
      with ih have r: "replace_text ?pat ?rep (e @ 0x0A # join_lines es)
          = e @ NL @ glue boundary4 es"
        by (simp add: NL_def)
      show ?thesis
        unfolding su j g using False r by (simp add: boundary4_def)
    qed
  qed
qed

subsection \<open>Pass 5 on a list of lines\<close>

lemma window_item_end:
  assumes "x = [] \<or> (suffix UL_OPEN x \<and> prefix LI_OPEN e)"
  shows "suffix LI_CLOSE (x @ e) \<longleftrightarrow> suffix LI_CLOSE e"
proof (cases "length LI_CLOSE \<le> length e")
  case True
  then show ?thesis by (rule suffix_short)
next
  case False
  show ?thesis
  proof (cases "x = []")
    case True
    then show ?thesis by simp
  next
    case nx: False
    with assms obtain x0 e1 where x: "x = x0 @ UL_OPEN" and e: "e = LI_OPEN @ e1"
      by (auto simp: suffix_def prefix_def)
    from False e have "e1 = []"
      by (cases e1) (simp_all add: text_defs)
    with e have e': "e = LI_OPEN" by simp
    have "suffix LI_CLOSE (x0 @ (UL_OPEN @ LI_OPEN)) \<longleftrightarrow> suffix LI_CLOSE (UL_OPEN @ LI_OPEN)"
      by (rule suffix_short) (simp add: text_defs)
    moreover have "\<not> suffix LI_CLOSE (UL_OPEN @ LI_OPEN)" and "\<not> suffix LI_CLOSE LI_OPEN"
      by (simp_all add: suffix_to_prefix text_defs)
    ultimately show ?thesis
      using x e' by simp
  qed
qed

lemma prefix_glue4:
  assumes "0x0A \<notin> set e"
  shows "prefix STRONG_OPEN (glue boundary4 (e # r)) \<longleftrightarrow> prefix STRONG_OPEN e"
proof (cases r)
  case Nil
  then show ?thesis by simp
next
  case (Cons e' r')
  show ?thesis
  proof (cases "opens_list e e'")
    case True
    then have "length STRONG_CLOSE \<le> length e"
      by (simp add: opens_list_def suffix_length_le)
    then have "length STRONG_OPEN \<le> length e"
      by (simp add: text_defs)
    then show ?thesis
      using Cons by (simp add: prefix_short)
  next
    case False
    have "0x0A \<notin> set STRONG_OPEN"
      by (simp add: text_defs)
    from prefix_before_NL [OF this, of e "glue boundary4 (e' # r')"] False Cons
    show ?thesis
      by (simp add: boundary4_def NL_def)
  qed
qed

lemma end_ul_lines:
  assumes "list_all (\<lambda>l. 0x0A \<notin> set l) es" and "0x0A \<notin> set x"
    and "x = [] \<or> (suffix UL_OPEN x \<and> prefix LI_OPEN (hd es) \<and> es \<noteq> [])"
  shows "end_ul_pass (x @ glue boundary4 es) = x @ glue boundary es"
  using assms
proof (induction es arbitrary: x)
  case Nil
  have "0x0A \<notin> set LI_CLOSE"
    by (simp add: text_defs)
  then have "replace_text (LI_CLOSE @ 0x0A # STRONG_OPEN) rep x = x" for rep
    using Nil.prems(2) by (rule replace_text_one_line)
  then show ?case
    by (simp add: end_ul_pass_def NL_def)
next
  case (Cons e es)
  let ?pat = "LI_CLOSE @ 0x0A # STRONG_OPEN" and ?rep = "LI_CLOSE @ UL_CLOSE @ STRONG_OPEN"
  have A: "0x0A \<notin> set LI_CLOSE"
    by (simp add: text_defs)
  have ne: "0x0A \<notin> set e" and nes: "list_all (\<lambda>l. 0x0A \<notin> set l) es"
    using Cons.prems(1) by simp_all
  have nxe: "0x0A \<notin> set (x @ e)"
    using ne Cons.prems(2) by simp
  have eu: "end_ul_pass = replace_text ?pat ?rep"
    by (simp add: end_ul_pass_def NL_def)
  have ih: "replace_text ?pat ?rep (y @ glue boundary4 es) = y @ glue boundary es"
    if "0x0A \<notin> set y" and "y = [] \<or> (suffix UL_OPEN y \<and> prefix LI_OPEN (hd es) \<and> es \<noteq> [])" for y
    using Cons.IH [OF nes that] by (simp add: eu)
  have ih0: "replace_text ?pat ?rep (glue boundary4 es) = glue boundary es"
    using ih [of "[]"] by simp
  have w: "suffix LI_CLOSE (x @ e) \<longleftrightarrow> suffix LI_CLOSE e"
    using Cons.prems(3) by (intro window_item_end) auto
  show ?case
  proof (cases es)
    case Nil
    from A nxe have "replace_text ?pat ?rep (x @ e) = x @ e"
      by (rule replace_text_one_line)
    with Nil show ?thesis
      by (simp add: eu)
  next
    case (Cons e' r)
    have ne': "0x0A \<notin> set e'"
      using nes Cons by simp
    have pg: "prefix STRONG_OPEN (glue boundary4 es) \<longleftrightarrow> prefix STRONG_OPEN e'"
      unfolding Cons using ne' by (rule prefix_glue4)
    show ?thesis
    proof (cases "opens_list e e'")
      case True
      have g4: "glue boundary4 (e # es) = e @ UL_OPEN @ glue boundary4 es"
        and g: "glue boundary (e # es) = e @ UL_OPEN @ glue boundary es"
        using True Cons by (simp_all add: boundary4_def boundary_def)
      have "0x0A \<notin> set (x @ e @ UL_OPEN)"
        using nxe by (simp add: text_defs)
      moreover have "suffix UL_OPEN (x @ e @ UL_OPEN) \<and> prefix LI_OPEN (hd es) \<and> es \<noteq> []"
        using True Cons by (simp add: opens_list_def suffix_def)
      ultimately have "replace_text ?pat ?rep ((x @ e @ UL_OPEN) @ glue boundary4 es)
          = (x @ e @ UL_OPEN) @ glue boundary es"
        by (intro ih) simp_all
      then show ?thesis
        unfolding eu g4 g by simp
    next
      case False
      have g4: "glue boundary4 (e # es) = e @ 0x0A # glue boundary4 es"
        using False Cons by (simp add: boundary4_def NL_def)
      show ?thesis
      proof (cases "closes_list e e'")
        case True
        then obtain e0 where e0: "e = e0 @ LI_CLOSE"
          by (auto simp: closes_list_def suffix_def)
        from True pg obtain z where z: "glue boundary4 es = STRONG_OPEN @ z"
          by (auto simp: closes_list_def prefix_def)
        have g: "glue boundary (e # es) = e @ UL_CLOSE @ glue boundary es"
          using True False Cons by (simp add: boundary_def)
        have "0x0A \<notin> set (x @ e0)"
          using nxe e0 by simp
        with A have m: "replace_text ?pat ?rep (((x @ e0) @ LI_CLOSE) @ 0x0A # STRONG_OPEN @ z)
            = (x @ e0) @ ?rep @ replace_text ?pat ?rep z"
          by (rule replace_text_match_line)
        have "STRONG_OPEN @ replace_text ?pat ?rep z = glue boundary es"
          using ih0 z by (simp only: end_ul_keeps_strong_tag)
        with m have r: "replace_text ?pat ?rep (x @ e @ 0x0A # glue boundary4 es)
            = x @ e @ UL_CLOSE @ glue boundary es"
          using e0 z by simp
        show ?thesis
          unfolding eu g4 g by (rule r)
      next
        case nc: False
        have g: "glue boundary (e # es) = e @ 0x0A # glue boundary es"
          using nc False Cons by (simp add: boundary_def NL_def)
        have "\<not> (suffix LI_CLOSE (x @ e) \<and> prefix STRONG_OPEN (glue boundary4 es))"
          using nc w pg by (simp add: closes_list_def)
        with A nxe have "replace_text ?pat ?rep ((x @ e) @ 0x0A # glue boundary4 es)
            = (x @ e) @ 0x0A # replace_text ?pat ?rep (glue boundary4 es)"
          by (rule replace_text_skip_line)
        with ih0 have r: "replace_text ?pat ?rep (x @ e @ 0x0A # glue boundary4 es)
            = x @ e @ 0x0A # glue boundary es"
          by simp
        show ?thesis
          unfolding eu g4 g by (rule r)
      qed
    qed
  qed
qed

subsection \<open>Pass 6 on a list of lines\<close>

lemma window_item_end6:
  assumes "x = [] \<or> (suffix UL_OPEN x \<and> prefix LI_OPEN q) \<or> (suffix UL_CLOSE x \<and> prefix STRONG_OPEN q)"
  shows "suffix LI_CLOSE (x @ q) \<longleftrightarrow> suffix LI_CLOSE q"
proof (cases "prefix STRONG_OPEN q")
  case True
  then have "length STRONG_OPEN \<le> length q"
    by (rule prefix_length_le)
  then have "length LI_CLOSE \<le> length q"
    by (simp add: text_defs)
  then show ?thesis by (rule suffix_short)
next
  case False
  with assms have "x = [] \<or> (suffix UL_OPEN x \<and> prefix LI_OPEN q)"
    by blast
  then show ?thesis by (rule window_item_end)
qed

lemma boundary_Nil [simp]: "boundary [] e = NL"
  by (simp add: boundary_def opens_list_def closes_list_def text_defs)

lemma boundary_cases:
  obtains (opens) "boundary q e = UL_OPEN" "opens_list q e"
  | (closes) "boundary q e = UL_CLOSE" "closes_list q e" "\<not> opens_list q e"
  | (feed) "boundary q e = NL" "\<not> closes_list q e" "\<not> opens_list q e"
  by (auto simp: boundary_def)

lemma prefix_glue:
  assumes "0x0A \<notin> set e"
  shows "prefix LI_OPEN (glue boundary (e # r)) \<longleftrightarrow> prefix LI_OPEN e"
proof (cases r)
  case Nil
  then show ?thesis by simp
next
  case (Cons e' r')
  show ?thesis
  proof (cases rule: boundary_cases [of e e'])
    case opens
    then have "length STRONG_CLOSE \<le> length e"
      by (simp add: opens_list_def suffix_length_le)
    then have "length LI_OPEN \<le> length e"
      by (simp add: text_defs)
    then show ?thesis
      using Cons by (simp add: prefix_short)
  next
    case closes
    then have "length LI_CLOSE \<le> length e"
      by (simp add: closes_list_def suffix_length_le)
    then have "length LI_OPEN \<le> length e"
      by (simp add: text_defs)
    then show ?thesis
      using Cons by (simp add: prefix_short)
  next
    case feed
    have "0x0A \<notin> set LI_OPEN"
      by (simp add: text_defs)
    from prefix_before_NL [OF this, of e "glue boundary (e' # r')"] feed Cons
    show ?thesis
      by (simp add: NL_def)
  qed
qed

lemma prefix_feed_glue:
  assumes "list_all (\<lambda>l. 0x0A \<notin> set l) (e # r)"
  shows "prefix (0x0A # LI_OPEN) (glue boundary (e # r))
    \<longleftrightarrow> e = [] \<and> (\<exists>e' r'. r = e' # r' \<and> prefix LI_OPEN e')"
proof (cases e)
  case (Cons c cs)
  with assms have "c \<noteq> 0x0A" by auto
  with Cons show ?thesis
    by (simp add: glue_Cons)
next
  case Nil
  show ?thesis
  proof (cases r)
    case Nil
    with \<open>e = []\<close> show ?thesis by simp
  next
    case (Cons e' r')
    with assms have "0x0A \<notin> set e'" by simp
    then have "prefix LI_OPEN (glue boundary (e' # r')) \<longleftrightarrow> prefix LI_OPEN e'"
      by (rule prefix_glue)
    with Cons \<open>e = []\<close> show ?thesis
      by (simp add: NL_def)
  qed
qed

lemma blank_line_keeps_item_tag:
  "replace_text (LI_CLOSE @ 0x0A # 0x0A # LI_OPEN) rep (LI_OPEN @ z)
     = LI_OPEN @ replace_text (LI_CLOSE @ 0x0A # 0x0A # LI_OPEN) rep z"
  by (simp add: text_defs)


lemma converted_fragment_normal:
  assumes "\<not> (e = [] \<and> suffix LI_CLOSE q)" and "\<not> (q = [] \<and> pending p2)"
  shows "converted_fragment p2 (Some q) e = boundary q e @ e"
  using assms by auto

lemma blank_line_lines:
  assumes "list_all (\<lambda>l. 0x0A \<notin> set l) (q # r)" and "0x0A \<notin> set x"
    and "x = [] \<or> (suffix UL_OPEN x \<and> prefix LI_OPEN q) \<or> (suffix UL_CLOSE x \<and> prefix STRONG_OPEN q)"
    and "\<not> (q = [] \<and> pending p2)"
  shows "blank_line_pass (x @ glue boundary (q # r))
    = x @ q @ emit_lines converted_fragment converted_end p2 (Some q) r"
  using assms
proof (induction "length r" arbitrary: r x q p2 rule: less_induct)
  case less
  let ?pat = "LI_CLOSE @ 0x0A # 0x0A # LI_OPEN" and ?rep = "LI_CLOSE @ UL_CLOSE @ STRONG_OPEN"
  let ?E = "emit_lines converted_fragment converted_end"
  have A: "0x0A \<notin> set LI_CLOSE"
    by (simp add: text_defs)
  have nq: "0x0A \<notin> set q" and nr: "list_all (\<lambda>l. 0x0A \<notin> set l) r"
    using less.prems(1) by simp_all
  have nxq: "0x0A \<notin> set (x @ q)"
    using nq less.prems(2) by simp
  have bl: "blank_line_pass = replace_text ?pat ?rep"
    by (simp add: blank_line_pass_def NL_def)
  have w: "suffix LI_CLOSE (x @ q) \<longleftrightarrow> suffix LI_CLOSE q"
    using less.prems(3) by (rule window_item_end6)
  have ih: "replace_text ?pat ?rep (y @ glue boundary (e # s)) = y @ e @ ?E p (Some e) s"
    if "length s < length r" and "list_all (\<lambda>l. 0x0A \<notin> set l) (e # s)" and "0x0A \<notin> set y"
      and "y = [] \<or> (suffix UL_OPEN y \<and> prefix LI_OPEN e) \<or> (suffix UL_CLOSE y \<and> prefix STRONG_OPEN e)"
      and "\<not> (e = [] \<and> pending p)" for y e s p
    using less.hyps [OF that] by (simp add: bl)
  have ih0: "replace_text ?pat ?rep (glue boundary (e # s)) = e @ ?E p (Some e) s"
    if "length s < length r" and "list_all (\<lambda>l. 0x0A \<notin> set l) (e # s)"
      and "\<not> (e = [] \<and> pending p)" for e s p
    using ih [OF that(1,2), of "[]" p] that(3) by simp
  show ?case
  proof (cases r)
    case Nil
    from A nxq have "replace_text ?pat ?rep (x @ q) = x @ q"
      by (rule replace_text_one_line)
    moreover have "converted_end p2 (Some q) = []"
      using less.prems(4) by auto
    ultimately show ?thesis
      using Nil by (simp add: bl)
  next
    case (Cons e' r')
    have ne': "0x0A \<notin> set e'" and ner': "list_all (\<lambda>l. 0x0A \<notin> set l) (e' # r')"
      and lr': "length r' < length r"
      using nr Cons by simp_all
    have g: "glue boundary (q # r) = q @ boundary q e' @ glue boundary (e' # r')"
      using Cons by simp
    have E: "?E p2 (Some q) r = converted_fragment p2 (Some q) e' @ ?E (Some q) (Some e') r'"
      using Cons by simp
    show ?thesis
    proof (cases rule: boundary_cases [of q e'])
      case opens
      then have e': "e' \<noteq> []" and pe: "prefix LI_OPEN e'"
        by (auto simp: opens_list_def text_defs)
      have cf: "converted_fragment p2 (Some q) e' = UL_OPEN @ e'"
        using converted_fragment_normal [OF _ less.prems(4), of e'] opens(1) e' by simp
      have "replace_text ?pat ?rep ((x @ q @ UL_OPEN) @ glue boundary (e' # r'))
          = (x @ q @ UL_OPEN) @ e' @ ?E (Some q) (Some e') r'"
        using lr' ner'
      proof (rule ih)
        show "0x0A \<notin> set (x @ q @ UL_OPEN)"
          using nxq by (simp add: text_defs)
        show "x @ q @ UL_OPEN = [] \<or> (suffix UL_OPEN (x @ q @ UL_OPEN) \<and> prefix LI_OPEN e')
            \<or> (suffix UL_CLOSE (x @ q @ UL_OPEN) \<and> prefix STRONG_OPEN e')"
          using pe by (simp add: suffix_def)
        show "\<not> (e' = [] \<and> pending (Some q))"
          using e' by simp
      qed
      then show ?thesis
        unfolding bl g E cf opens(1) by simp
    next
      case closes
      then have e': "e' \<noteq> []" and pe: "prefix STRONG_OPEN e'"
        by (auto simp: closes_list_def text_defs)
      have cf: "converted_fragment p2 (Some q) e' = UL_CLOSE @ e'"
        using converted_fragment_normal [OF _ less.prems(4), of e'] closes(1) e' by simp
      have "replace_text ?pat ?rep ((x @ q @ UL_CLOSE) @ glue boundary (e' # r'))
          = (x @ q @ UL_CLOSE) @ e' @ ?E (Some q) (Some e') r'"
        using lr' ner'
      proof (rule ih)
        show "0x0A \<notin> set (x @ q @ UL_CLOSE)"
          using nxq by (simp add: text_defs)
        show "x @ q @ UL_CLOSE = [] \<or> (suffix UL_OPEN (x @ q @ UL_CLOSE) \<and> prefix LI_OPEN e')
            \<or> (suffix UL_CLOSE (x @ q @ UL_CLOSE) \<and> prefix STRONG_OPEN e')"
          using pe by (simp add: suffix_def)
        show "\<not> (e' = [] \<and> pending (Some q))"
          using e' by simp
      qed
      then show ?thesis
        unfolding bl g E cf closes(1) by simp
    next
      case feed
      have g': "glue boundary (q # r) = q @ 0x0A # glue boundary (e' # r')"
        using g feed(1) by (simp add: NL_def)
      have pf: "prefix (0x0A # LI_OPEN) (glue boundary (e' # r'))
          \<longleftrightarrow> e' = [] \<and> (\<exists>e'' r''. r' = e'' # r'' \<and> prefix LI_OPEN e'')"
        using ner' by (rule prefix_feed_glue)
      show ?thesis
      proof (cases "suffix LI_CLOSE q \<and> e' = []")
        case False
        then have "\<not> (suffix LI_CLOSE (x @ q) \<and> prefix (0x0A # LI_OPEN) (glue boundary (e' # r')))"
          using w pf by blast
        with A nxq have "replace_text ?pat ?rep ((x @ q) @ 0x0A # glue boundary (e' # r'))
            = (x @ q) @ 0x0A # replace_text ?pat ?rep (glue boundary (e' # r'))"
          by (rule replace_text_skip_line)
        moreover have "replace_text ?pat ?rep (glue boundary (e' # r')) = e' @ ?E (Some q) (Some e') r'"
          using lr' ner' False by (intro ih0) auto
        moreover have "converted_fragment p2 (Some q) e' = 0x0A # e'"
          using converted_fragment_normal [OF _ less.prems(4), of e'] False feed(1)
          by (auto simp: NL_def)
        ultimately show ?thesis
          unfolding bl g' E by simp
      next
        case True
        then obtain q0 where q0: "q = q0 @ LI_CLOSE" and e': "e' = []"
          by (auto simp: suffix_def)
        have cf1: "converted_fragment p2 (Some q) e' = []"
          using True by simp
        show ?thesis
        proof (cases r')
          case Nil
          have "\<not> (suffix LI_CLOSE (x @ q) \<and> prefix (0x0A # LI_OPEN) [])"
            by simp
          with A nxq have "replace_text ?pat ?rep ((x @ q) @ 0x0A # [])
              = (x @ q) @ 0x0A # replace_text ?pat ?rep []"
            by (rule replace_text_skip_line)
          moreover have "?E (Some q) (Some e') r' = NL"
            using True Nil by simp
          ultimately show ?thesis
            unfolding bl g' E cf1 using Nil e' by (simp add: NL_def)
        next
          case (Cons e'' r'')
          have ne'': "list_all (\<lambda>l. 0x0A \<notin> set l) (e'' # r'')" and lr'': "length r'' < length r"
            using ner' lr' Cons by simp_all
          have gg: "glue boundary (e' # r') = 0x0A # glue boundary (e'' # r'')"
            using e' Cons by (simp add: NL_def)
          have E2: "?E (Some q) (Some e') r' = converted_fragment (Some q) (Some []) e'' @ ?E (Some []) (Some e'') r''"
            using e' Cons by simp
          have i2: "replace_text ?pat ?rep (glue boundary (e'' # r'')) = e'' @ ?E (Some []) (Some e'') r''"
            using lr'' ne'' by (intro ih0) (auto simp: text_defs)
          have pg: "prefix LI_OPEN (glue boundary (e'' # r'')) \<longleftrightarrow> prefix LI_OPEN e''"
            using ne'' by (intro prefix_glue) simp
          show ?thesis
          proof (cases "prefix LI_OPEN e''")
            case pe: True
            then obtain e1 where e1: "e'' = LI_OPEN @ e1"
              by (auto simp: prefix_def)
            from pe pg obtain z where z: "glue boundary (e'' # r'') = LI_OPEN @ z"
              by (auto simp: prefix_def)
            have "0x0A \<notin> set (x @ q0)"
              using nxq q0 by simp
            with A have m: "replace_text ?pat ?rep (((x @ q0) @ LI_CLOSE) @ 0x0A # (0x0A # LI_OPEN) @ z)
                = (x @ q0) @ ?rep @ replace_text ?pat ?rep z"
              by (rule replace_text_match_line)
            have "LI_OPEN @ replace_text ?pat ?rep z = LI_OPEN @ e1 @ ?E (Some []) (Some e'') r''"
              using i2 unfolding z by (simp only: blank_line_keeps_item_tag e1 append_assoc)
            then have rz: "replace_text ?pat ?rep z = e1 @ ?E (Some []) (Some e'') r''"
              by simp
            have "LI_CLOSE \<noteq> []" and "length LI_OPEN = 4"
              by (simp_all add: text_defs)
            then have cf2: "converted_fragment (Some q) (Some []) e'' = UL_CLOSE @ STRONG_OPEN @ e1"
              using True e1 by simp
            have "replace_text ?pat ?rep (x @ q @ 0x0A # 0x0A # glue boundary (e'' # r''))
                = x @ q @ UL_CLOSE @ STRONG_OPEN @ e1 @ ?E (Some []) (Some e'') r''"
              using m rz unfolding z q0 by simp
            then show ?thesis
              unfolding bl g' E cf1 E2 cf2 gg by simp
          next
            case npe: False
            have "\<not> (suffix LI_CLOSE (x @ q) \<and> prefix (0x0A # LI_OPEN) (0x0A # glue boundary (e'' # r'')))"
              using npe pg by simp
            with A nxq have s1: "replace_text ?pat ?rep ((x @ q) @ 0x0A # 0x0A # glue boundary (e'' # r''))
                = (x @ q) @ 0x0A # replace_text ?pat ?rep (0x0A # glue boundary (e'' # r''))"
              by (rule replace_text_skip_line)
            have "\<not> (suffix LI_CLOSE [] \<and> prefix (0x0A # LI_OPEN) (glue boundary (e'' # r'')))"
              by (simp add: text_defs)
            with A have "replace_text ?pat ?rep ([] @ 0x0A # glue boundary (e'' # r''))
                = [] @ 0x0A # replace_text ?pat ?rep (glue boundary (e'' # r''))"
              by (intro replace_text_skip_line) simp_all
            then have s2: "replace_text ?pat ?rep (0x0A # glue boundary (e'' # r''))
                = 0x0A # replace_text ?pat ?rep (glue boundary (e'' # r''))"
              by simp
            have "LI_CLOSE \<noteq> []"
              by (simp add: text_defs)
            then have cf2: "converted_fragment (Some q) (Some []) e'' = 0x0A # 0x0A # e''"
              using True npe by (simp add: NL_def)
            have "replace_text ?pat ?rep (x @ q @ 0x0A # 0x0A # glue boundary (e'' # r''))
                = x @ q @ 0x0A # 0x0A # e'' @ ?E (Some []) (Some e'') r''"
              using s1 s2 i2 by simp
            then show ?thesis
              unfolding bl g' E cf1 E2 cf2 gg by simp
          qed
        qed
      qed
    qed
  qed
qed

subsection \<open>The units of a converted line\<close>

lemma set_bold_pass:
  "set (bold_pass s) \<subseteq> set s \<union> set STRONG_OPEN \<union> set STRONG_CLOSE"
proof (induction s rule: bold_pass.induct)
  case 1
  show ?case by simp
next
  case (2 c cs)
  show ?case
  proof (cases "prefix STARS (c # cs)")
    case False
    with "2.IH"(3) [OF False] show ?thesis by auto
  next
    case True
    show ?thesis
    proof (cases "lazy_dots STARS (drop (length STARS) (c # cs))")
      case None
      with "2.IH"(1) [OF True None] True show ?thesis by auto
    next
      case (Some mr)
      obtain m r where mr: "mr = (m, r)" by (cases mr)
      from Some mr have "drop (length STARS) (c # cs) = m @ STARS @ r"
        by (simp add: lazy_dots_split)
      then have "set r \<subseteq> set (c # cs)" and "set m \<subseteq> set (c # cs)"
        by (metis set_drop_subset set_append le_sup_iff)+
      moreover have "bold_pass (c # cs) = STRONG_OPEN @ m @ STRONG_CLOSE @ bold_pass r"
        using True Some mr by simp
      ultimately show ?thesis
        using "2.IH"(2) [OF True Some mr [symmetric]] by auto
    qed
  qed
qed

lemma set_bullet_pass:
  "set (bullet_pass bol s) \<subseteq> set s \<union> set LI_OPEN \<union> set LI_CLOSE"
proof (induction bol s rule: bullet_pass.induct)
  case (1 bol)
  show ?case by simp
next
  case (2 bol c cs)
  let ?d = "drop (length DASH_SP) (c # cs)"
  show ?case
  proof (cases "bol \<and> prefix DASH_SP (c # cs)")
    case False
    then have eq: "bullet_pass bol (c # cs) = c # bullet_pass (is_line_terminator c) cs"
      by auto
    from "2.IH"(2) [OF False] show ?thesis
      unfolding eq by auto
  next
    case True
    have d: "set ?d \<subseteq> set (c # cs)"
      by (rule set_drop_subset)
    have "set (takeWhile dot ?d) \<subseteq> set ?d" and "set (dropWhile dot ?d) \<subseteq> set ?d"
      by (auto dest: set_takeWhileD set_dropWhileD)
    with d have t: "set (takeWhile dot ?d) \<subseteq> set (c # cs)"
      and dr: "set (dropWhile dot ?d) \<subseteq> set (c # cs)"
      by blast+
    have eq: "bullet_pass bol (c # cs)
        = LI_OPEN @ takeWhile dot ?d @ LI_CLOSE @ bullet_pass False (dropWhile dot ?d)"
      using True by simp
    from "2.IH"(1) [OF True] t dr show ?thesis
      unfolding eq by (simp only: set_append) blast
  qed
qed

lemma set_numbered_pass:
  "set (numbered_pass bol s) \<subseteq> set s \<union> set LI_OPEN \<union> set LI_CLOSE"
proof (induction bol s rule: numbered_pass.induct)
  case (1 bol)
  show ?case by simp
next
  case (2 bol c cs)
  let ?np = "if bol then numbered_prefix (c # cs) else None"
  show ?case
  proof (cases ?np)
    case None
    then have eq: "numbered_pass bol (c # cs) = c # numbered_pass (is_line_terminator c) cs"
      by simp
    from "2.IH"(1) [OF None] show ?thesis
      unfolding eq by auto
  next
    case (Some r)
    then have "r = drop (length DOT_SP) (dropWhile is_digit (c # cs))"
      by (auto simp: numbered_prefix_def split: if_splits)
    moreover have "set (drop (length DOT_SP) (dropWhile is_digit (c # cs))) \<subseteq> set (dropWhile is_digit (c # cs))"
      by (rule set_drop_subset)
    moreover have "set (dropWhile is_digit (c # cs)) \<subseteq> set (c # cs)"
      by (auto dest: set_dropWhileD)
    ultimately have r: "set r \<subseteq> set (c # cs)"
      by blast
    have "set (takeWhile dot r) \<subseteq> set r" and "set (dropWhile dot r) \<subseteq> set r"
      by (auto dest: set_takeWhileD set_dropWhileD)
    with r have t: "set (takeWhile dot r) \<subseteq> set (c # cs)"
      and dr: "set (dropWhile dot r) \<subseteq> set (c # cs)"
      by blast+
    have eq: "numbered_pass bol (c # cs)
        = LI_OPEN @ takeWhile dot r @ LI_CLOSE @ numbered_pass False (dropWhile dot r)"
      using Some by simp
    from "2.IH"(2) [OF Some] t dr show ?thesis
      unfolding eq by (simp only: set_append) blast
  qed
qed

lemma item_passes_no_NL:
  assumes "0x0A \<notin> set l"
  shows "0x0A \<notin> set (item_passes l)"
proof -
  have t: "0x0A \<notin> set STRONG_OPEN \<union> set STRONG_CLOSE \<union> set LI_OPEN \<union> set LI_CLOSE"
    by (simp add: text_defs)
  have "0x0A \<notin> set (bold_pass l)"
    using set_bold_pass [of l] assms t by auto
  then have "0x0A \<notin> set (bullet_pass True (bold_pass l))"
    using set_bullet_pass [of True "bold_pass l"] t by auto
  then have "0x0A \<notin> set (numbered_pass True (bullet_pass True (bold_pass l)))"
    using set_numbered_pass [of True "bullet_pass True (bold_pass l)"] t by auto
  then show ?thesis
    by (simp add: item_passes_def)
qed

subsection \<open>The chain as a pass over the lines\<close>

lemma container_passes_lines:
  assumes "list_all (\<lambda>l. 0x0A \<notin> set l) es"
  shows "container_passes (join_lines es) = emit_lines converted_fragment converted_end None None es"
proof (cases es)
  case Nil
  then show ?thesis
    by (simp add: container_passes_def start_ul_pass_def end_ul_pass_def blank_line_pass_def)
next
  case (Cons q r)
  have "start_ul_pass (join_lines es) = glue boundary4 es"
    using assms by (rule start_ul_lines)
  moreover have "end_ul_pass ([] @ glue boundary4 es) = [] @ glue boundary es"
    using assms by (rule end_ul_lines) simp_all
  moreover have "blank_line_pass ([] @ glue boundary (q # r))
      = [] @ q @ emit_lines converted_fragment converted_end None (Some q) r"
    using assms unfolding Cons by (rule blank_line_lines) simp_all
  ultimately show ?thesis
    using Cons by (simp add: container_passes_def)
qed

lemma emit_lines_converted:
  "emit_lines line_fragment end_fragment p2 p1 ls
     = emit_lines converted_fragment converted_end
         (map_option item_passes p2) (map_option item_passes p1) (map item_passes ls)"
  by (induction ls arbitrary: p2 p1) (simp_all add: line_fragment_def end_fragment_def)

lemma format_by_lookback:
  assumes "list_all (\<lambda>l. 0x0A \<notin> set l) ls"
  shows "format (join_lines ls) = emit_lines line_fragment end_fragment None None ls"
proof -
  have "list_all (\<lambda>l. 0x0A \<notin> set l) (map item_passes ls)"
    using assms by (simp add: list_all_iff item_passes_no_NL)
  then have "container_passes (join_lines (map item_passes ls))
      = emit_lines converted_fragment converted_end None None (map item_passes ls)"
    by (rule container_passes_lines)
  then show ?thesis
    by (simp add: format_chain item_passes_join_lines emit_lines_converted)
qed

lemma two_line_lookback_format: "two_line_lookback format"
  unfolding two_line_lookback_def using format_by_lookback by blast

section \<open>The claims\<close>

text \<open>
  C1, as stated: two lines that start with \<^verbatim>\<open>- \<close> come out as one unordered list
  container around two item elements. The code returns the two item elements with the
  line feed between them and no list container at all.
\<close>

theorem C1_counterexample:
  "format (js ''- a\<newline>- b'') = js ''<li>a</li>\<newline><li>b</li>''
   \<and> \<not> sublist UL_OPEN (format (js ''- a\<newline>- b''))"
  by code_simp

text \<open>
  C1, amended. For consecutive lines that each start with \<^verbatim>\<open>- \<close>, the output holds one
  item element per line, in the order of the lines, each with the text of its line.
\<close>

theorem C1_bullet_lines_items:
  assumes "list_all item_text cs"
  shows "items_of (format (join_lines (map bullet_line cs))) = cs"
proof -
  have "\<forall>c\<in>set cs. 0x3C \<notin> set c"
    using assms by (simp add: list_all_iff item_text_facts)
  then show ?thesis
    using assms by (simp add: format_bullet_lines items_of_item_elements)
qed

theorem C1_bullet_lines_items_witness:
  "items_of (format (js ''- a\<newline>- b'')) = [js ''a'', js ''b'']"
proof -
  have h: "list_all item_text [js ''a'', js ''b'']" by code_simp
  have e: "join_lines (map bullet_line [js ''a'', js ''b'']) = js ''- a\<newline>- b''" by code_simp
  from C1_bullet_lines_items [OF h] show ?thesis
    unfolding e .
qed







text \<open>
  C4, as stated: two numbered lines come out as one ordered list container around two
  item elements. The code returns the two item elements and no ordered list container.
\<close>

theorem C4_counterexample:
  "format (js ''1. a\<newline>2. b'') = js ''<li>a</li>\<newline><li>b</li>''
   \<and> \<not> sublist OL_OPEN (format (js ''1. a\<newline>2. b''))"
  by code_simp

text \<open>
  C4, amended. For consecutive lines that each start with digits, a period and a space,
  the output holds one item element per line, in the order of the lines, each with the
  text of its line after the number.
\<close>

theorem C4_numbered_lines_items:
  assumes "list_all (\<lambda>nc. fst nc \<noteq> [] \<and> list_all is_digit (fst nc) \<and> item_text (snd nc)) ncs"
  shows "items_of (format (join_lines (map numbered_line ncs))) = map snd ncs"
proof -
  have "\<forall>c\<in>set (map snd ncs). 0x3C \<notin> set c"
    using assms by (auto simp: list_all_iff item_text_facts)
  then show ?thesis
    using assms by (simp only: format_numbered_lines items_of_item_elements)
qed

theorem C4_numbered_lines_items_witness:
  "items_of (format (js ''1. a\<newline>2. b'')) = [js ''a'', js ''b'']"
proof -
  let ?ncs = "[(js ''1'', js ''a''), (js ''2'', js ''b'')]"
  have h: "list_all (\<lambda>nc. fst nc \<noteq> [] \<and> list_all is_digit (fst nc) \<and> item_text (snd nc)) ?ncs"
    by code_simp
  have e: "join_lines (map numbered_line ?ncs) = js ''1. a\<newline>2. b''"
    and e2: "map snd ?ncs = [js ''a'', js ''b'']"
    by code_simp+
  from C4_numbered_lines_items [OF h] show ?thesis
    unfolding e e2 .
qed

text \<open>
  C5, as stated: for the input \<^verbatim>\<open>- a\<close>, line feed, \<^verbatim>\<open>plain\<close> the list container is closed
  before \<^verbatim>\<open>plain\<close>. The code emits no closing tag there: the output is the item element,
  the line feed and \<^verbatim>\<open>plain\<close>.
\<close>

theorem C5_counterexample:
  "format (js ''- a\<newline>plain'') = js ''<li>a</li>\<newline>plain''
   \<and> \<not> sublist UL_CLOSE (format (js ''- a\<newline>plain''))"
  by code_simp

text \<open>
  C5, amended. A plain line that follows a line feed is passed through as it is, together
  with the line feed, whatever text stands before it, and nothing else is emitted for it:
  the output for the text with the line is the output for the text without it, followed
  by the line feed and the line. In particular no closing container tag is emitted before
  the line, and the line stands outside every item element.
\<close>

theorem C5_plain_line_passed_through:
  assumes "plain_line p"
  shows "format (s @ NL @ p) = format s @ NL @ p"
proof -
  from assms have "0x0A \<notin> set p" and "p = [] \<or> hd p \<noteq> 0x3C"
    by (auto simp: plain_line_def list_all_iff dot_not_NL js_def prefix_Cons neq_Nil_conv)
  then have "container_passes (item_passes s @ NL @ p) = container_passes (item_passes s) @ NL @ p"
    by (rule container_passes_append_plain)
  with assms show ?thesis
    by (simp add: format_chain item_passes_NL item_passes_plain_line)
qed

theorem C5_plain_line_passed_through_witness:
  "format (js ''- a\<newline>plain'') = js ''<li>a</li>\<newline>plain''
   \<and> format (js ''**H**\<newline>- a\<newline>plain'') = js ''<strong>H</strong><ul><li>a</li>\<newline>plain''"
proof -
  have p: "plain_line (js ''plain'')" by code_simp
  have e1: "js ''- a'' @ NL @ js ''plain'' = js ''- a\<newline>plain''"
    and e2: "format (js ''- a'') @ NL @ js ''plain'' = js ''<li>a</li>\<newline>plain''"
    and e3: "js ''**H**\<newline>- a'' @ NL @ js ''plain'' = js ''**H**\<newline>- a\<newline>plain''"
    and e4: "format (js ''**H**\<newline>- a'') @ NL @ js ''plain'' = js ''<strong>H</strong><ul><li>a</li>\<newline>plain''"
    by code_simp+
  from C5_plain_line_passed_through [OF p, of "js ''- a''"]
    C5_plain_line_passed_through [OF p, of "js ''**H**\<newline>- a''"]
  show ?thesis
    unfolding e1 e2 e3 e4 by simp
qed

text \<open>
  C6, as stated: a text without \<^verbatim>\<open>**\<close> and without a line that starts with an item marker
  is returned unchanged. The container passes also rewrite tags that are already in the
  input: \<^verbatim>\<open></li>\<close>, line feed, \<^verbatim>\<open><strong>\<close> has no marker and is changed.
\<close>

theorem C6_counterexample:
  "marker_free (js ''</li>\<newline><strong>'')
   \<and> format (js ''</li>\<newline><strong>'') = js ''</li></ul><strong>''
   \<and> format (js ''</li>\<newline><strong>'') \<noteq> js ''</li>\<newline><strong>''"
  by code_simp

text \<open>
  C6, amended. A text without markers (lines taken as the patterns take them, ending at
  each line terminator) that also contains none of the three texts that passes 4 to 6
  look for is returned unchanged.
\<close>

theorem C6_identity_without_markers:
  assumes "marker_free s"
    and "\<not> sublist (STRONG_CLOSE @ NL @ LI_OPEN) s"
    and "\<not> sublist (LI_CLOSE @ NL @ STRONG_OPEN) s"
    and "\<not> sublist (LI_CLOSE @ NL @ NL @ LI_OPEN) s"
  shows "format s = s"
proof -
  have "container_passes s = s"
    using assms(2-4)
    by (simp add: container_passes_def start_ul_pass_def end_ul_pass_def blank_line_pass_def
        replace_text_id)
  with assms(1) show ?thesis
    by (simp add: format_chain item_passes_marker_free)
qed

theorem C6_identity_without_markers_witness:
  "format (js ''Good pace.\<newline>2 cuts - fine\<newline><li>x</li>'') = js ''Good pace.\<newline>2 cuts - fine\<newline><li>x</li>''"
proof -
  let ?s = "js ''Good pace.\<newline>2 cuts - fine\<newline><li>x</li>''"
  have "marker_free ?s" by code_simp
  moreover have "\<not> sublist (STRONG_CLOSE @ NL @ LI_OPEN) ?s" by code_simp
  moreover have "\<not> sublist (LI_CLOSE @ NL @ STRONG_OPEN) ?s" by code_simp
  moreover have "\<not> sublist (LI_CLOSE @ NL @ NL @ LI_OPEN) ?s" by code_simp
  ultimately show ?thesis by (rule C6_identity_without_markers)
qed




text \<open>
  C9, as stated: what is emitted for a line depends on that line and the line before it
  only. Then \<open>format\<close> could be written as a pass over the lines that emits one fragment
  per line by one-line lookback. It cannot: with \<^verbatim>\<open>- a\<close> or \<^verbatim>\<open>x\<close> as the first line, a
  blank second line and \<^verbatim>\<open>- b\<close> or \<^verbatim>\<open>y\<close> as the third line, the four outputs are
  \<^verbatim>\<open><li>a</li></ul><strong>b</li>\<close> (29 units), \<^verbatim>\<open>x\<close>, two line feeds, \<^verbatim>\<open><li>b</li>\<close> (13 units),
  \<^verbatim>\<open><li>a</li>\<close>, two line feeds, \<^verbatim>\<open>y\<close> (13 units) and \<^verbatim>\<open>x\<close>, two line feeds, \<^verbatim>\<open>y\<close> (4 units).
  With fragments chosen by one-line lookback the first two lines would contribute the same
  text whatever the third line is, and the third line the same text whatever the first
  line is, so the lengths would satisfy \<open>29 + 4 = 13 + 13\<close>. Pass 6 matches across three
  lines: what the third line becomes depends on the first.
\<close>

theorem C9_counterexample: "\<not> one_line_lookback format"
proof
  assume "one_line_lookback format"
  then obtain frag fin where
    H: "\<And>ls. ls \<noteq> [] \<Longrightarrow> list_all (\<lambda>l. 0x0A \<notin> set l) ls \<Longrightarrow>
      format (join_lines ls) = emit_lines (\<lambda>p2. frag) fin None None ls"
    unfolding one_line_lookback_def by blast
  let ?a = "js ''- a''" and ?x = "js ''x''" and ?b = "js ''- b''" and ?y = "js ''y''"
  define P1 where "P1 = frag None ?a @ frag (Some ?a) []"
  define P2 where "P2 = frag None ?x @ frag (Some ?x) []"
  define S where "S = frag (Some []) ?b @ fin (Some []) (Some ?b)"
  define S' where "S' = frag (Some []) ?y @ fin (Some []) (Some ?y)"
  have nl: "list_all (\<lambda>l. 0x0A \<notin> set l) [?a, [], ?b]" "list_all (\<lambda>l. 0x0A \<notin> set l) [?x, [], ?b]"
    "list_all (\<lambda>l. 0x0A \<notin> set l) [?a, [], ?y]" "list_all (\<lambda>l. 0x0A \<notin> set l) [?x, [], ?y]"
    by code_simp+
  have "format (join_lines [?a, [], ?b]) = P1 @ S"
    using H [OF _ nl(1)] by (simp add: P1_def S_def)
  moreover have "format (join_lines [?x, [], ?b]) = P2 @ S"
    using H [OF _ nl(2)] by (simp add: P2_def S_def)
  moreover have "format (join_lines [?a, [], ?y]) = P1 @ S'"
    using H [OF _ nl(3)] by (simp add: P1_def S'_def)
  moreover have "format (join_lines [?x, [], ?y]) = P2 @ S'"
    using H [OF _ nl(4)] by (simp add: P2_def S'_def)
  moreover have "length (format (join_lines [?a, [], ?b])) = 29"
    "length (format (join_lines [?x, [], ?b])) = 13"
    "length (format (join_lines [?a, [], ?y])) = 13"
    "length (format (join_lines [?x, [], ?y])) = 4"
    by code_simp+
  ultimately have "length P1 + length S = 29" "length P2 + length S = 13"
    "length P1 + length S' = 13" "length P2 + length S' = 4"
    by (metis length_append)+
  then show False by arith
qed

text \<open>
  C9, amended. What is emitted for a line depends on that line and the two lines before
  it, with no backtracking: for every input, \<open>format\<close> returns the fragments that
  \<open>line_fragment\<close> chooses for the lines, in order, followed by the text that \<open>end_fragment\<close>
  chooses from the last two lines. The first three passes convert each line on its own;
  the lookback decides the text at the boundary before the line (a line feed, \<^verbatim>\<open><ul>\<close> or
  \<^verbatim>\<open></ul>\<close>) and, after an item line and a blank line, whether pass 6 has matched.
\<close>

theorem C9_two_line_lookback:
  assumes "list_all (\<lambda>l. 0x0A \<notin> set l) ls"
  shows "format (join_lines ls) = emit_lines line_fragment end_fragment None None ls"
  using assms by (rule format_by_lookback)

theorem C9_two_line_lookback_witness:
  "format (js ''- a\<newline>\<newline>- b'')
     = line_fragment None None (js ''- a'') @ line_fragment None (Some (js ''- a'')) []
       @ line_fragment (Some (js ''- a'')) (Some []) (js ''- b'')
       @ end_fragment (Some []) (Some (js ''- b''))
   \<and> line_fragment (Some (js ''- a'')) (Some []) (js ''- b'') = js ''</ul><strong>b</li>''
   \<and> line_fragment (Some (js ''x'')) (Some []) (js ''- b'') = js ''\<newline><li>b</li>''"
proof -
  let ?ls = "[js ''- a'', [], js ''- b'']"
  have h: "list_all (\<lambda>l. 0x0A \<notin> set l) ?ls" by code_simp
  have e: "join_lines ?ls = js ''- a\<newline>\<newline>- b''" by code_simp
  have f: "line_fragment (Some (js ''- a'')) (Some []) (js ''- b'') = js ''</ul><strong>b</li>''"
    "line_fragment (Some (js ''x'')) (Some []) (js ''- b'') = js ''\<newline><li>b</li>''"
    by code_simp+
  from C9_two_line_lookback [OF h] f show ?thesis
    unfolding e by simp
qed

text \<open>
  C10. The last pass changes nothing. On a text that starts with the item tag the callback
  returns that text, whatever the offset and the original are; so the global replace of
  pass 7 returns its input, and the chain with the pass equals the chain without it, for
  every input.
\<close>

theorem C10_final_pass_identity:
  "wrap_callback (LI_OPEN @ t) offset original = LI_OPEN @ t
   \<and> wrap_pass s = s
   \<and> format s = container_passes (item_passes s)"
  by (simp add: wrap_callback_item wrap_pass_def format_def wrap_scan_id)

end
